theory Spec2Isabelle
  imports Main "HOL-Library.Sublist"
begin

section \<open>Python strings\<close>

text \<open>
  A Python \<open>str\<close> is a sequence of Unicode code points. The regular expressions and
  \<open>str.strip\<close> of the source work on code points (the field names are Chinese), so a
  string is a list of code points, each a natural number. \<open>ascii\<close> turns an Isabelle
  literal of ASCII characters into such a list.
\<close>

type_synonym pystr = "nat list"

definition ascii :: "string \<Rightarrow> pystr" where
  "ascii s = map of_char s"

abbreviation NL :: nat where "NL \<equiv> 10"
abbreviation SPACE :: nat where "SPACE \<equiv> 32"
abbreviation QUOTE :: nat where "QUOTE \<equiv> 34"
abbreviation COMMA :: nat where "COMMA \<equiv> 44"
abbreviation COLON :: nat where "COLON \<equiv> 58"
abbreviation LBRACK :: nat where "LBRACK \<equiv> 91"
abbreviation BACKSLASH :: nat where "BACKSLASH \<equiv> 92"
abbreviation RBRACK :: nat where "RBRACK \<equiv> 93"
abbreviation BACKTICK :: nat where "BACKTICK \<equiv> 96"
abbreviation LBRACE :: nat where "LBRACE \<equiv> 123"
abbreviation RBRACE :: nat where "RBRACE \<equiv> 125"

text \<open>
  The code points for which \<open>str.isspace\<close> holds; the class \<open>\s\<close> of \<open>re\<close> on a \<open>str\<close>
  pattern and \<open>str.strip()\<close> use the same set.
\<close>

definition is_space :: "nat \<Rightarrow> bool" where
  "is_space c \<longleftrightarrow>
     (9 \<le> c \<and> c \<le> 13) \<or> (28 \<le> c \<and> c \<le> 32) \<or> c = 133 \<or> c = 160 \<or> c = 5760 \<or>
     (8192 \<le> c \<and> c \<le> 8202) \<or> c = 8232 \<or> c = 8233 \<or> c = 8239 \<or> c = 8287 \<or> c = 12288"

text \<open>\<open>s.strip()\<close>\<close>

definition py_strip :: "pystr \<Rightarrow> pystr" where
  "py_strip s = rev (dropWhile is_space (rev (dropWhile is_space s)))"

text \<open>\<open>s.find(c)\<close> for a one-character \<open>c\<close>: the first index, or \<open>-1\<close>.\<close>

definition py_find :: "nat \<Rightarrow> pystr \<Rightarrow> int" where
  "py_find c s = (if c \<in> set s then int (length (takeWhile (\<lambda>x. x \<noteq> c) s)) else - 1)"

text \<open>\<open>s.replace(old, new)\<close>: the occurrences of \<open>old\<close>, left to right, not overlapping.\<close>

function py_replace :: "pystr \<Rightarrow> pystr \<Rightarrow> pystr \<Rightarrow> pystr" where
  "py_replace old new [] = (if old = [] then new else [])"
| "py_replace old new (c # cs) =
     (if old = [] then new @ c # py_replace old new cs
      else if prefix old (c # cs) then new @ py_replace old new (drop (length old) (c # cs))
      else c # py_replace old new cs)"
  by pat_completeness auto
termination
  by (relation "measure (\<lambda>(old, new, s). length s)") auto

section \<open>Decoded JSON values\<close>

text \<open>
  What \<open>json.loads\<close> returns: \<open>None\<close>, \<open>bool\<close>, \<open>int\<close>, \<open>float\<close>, \<open>str\<close>, \<open>list\<close> or
  \<open>dict\<close>. A \<open>dict\<close> keeps its keys in insertion order. A finite float is
  \<open>m * 2 ^ e\<close>.
\<close>

datatype pyfloat = Finite int int | PosInf | NegInf | NaN

datatype json =
    JNull
  | JBool bool
  | JInt int
  | JFloat pyfloat
  | JStr pystr
  | JArr "json list"
  | JObj "(pystr \<times> json) list"

text \<open>\<open>d[k] = v\<close> on an insertion-ordered \<open>dict\<close>.\<close>

fun dict_set :: "(pystr \<times> json) list \<Rightarrow> pystr \<Rightarrow> json \<Rightarrow> (pystr \<times> json) list" where
  "dict_set [] k v = [(k, v)]"
| "dict_set ((k', v') # d) k v = (if k' = k then (k, v) # d else (k', v') # dict_set d k v)"

text \<open>Truth value of a Python object, as \<open>if x:\<close> and \<open>if not x:\<close> test it.\<close>

fun py_truthy :: "json \<Rightarrow> bool" where
  "py_truthy JNull = False"
| "py_truthy (JBool b) = b"
| "py_truthy (JInt n) = (n \<noteq> 0)"
| "py_truthy (JFloat f) = (case f of Finite m e \<Rightarrow> m \<noteq> 0 | _ \<Rightarrow> True)"
| "py_truthy (JStr s) = (s \<noteq> [])"
| "py_truthy (JArr xs) = (xs \<noteq> [])"
| "py_truthy (JObj d) = (d \<noteq> [])"

text \<open>
  \<open>field in x\<close> for a \<open>str\<close> field: key membership in a \<open>dict\<close>, element membership in a
  \<open>list\<close>, substring test on a \<open>str\<close>; on the other types Python raises \<open>TypeError\<close>,
  which is \<open>None\<close> here.
\<close>

definition is_substring :: "pystr \<Rightarrow> pystr \<Rightarrow> bool" where
  "is_substring x s \<longleftrightarrow> list_ex (\<lambda>t. prefix x t) (suffixes s)"

fun py_contains :: "json \<Rightarrow> pystr \<Rightarrow> bool option" where
  "py_contains (JObj d) k = Some (k \<in> set (map fst d))"
| "py_contains (JArr xs) k = Some (JStr k \<in> set xs)"
| "py_contains (JStr s) k = Some (is_substring k s)"
| "py_contains _ k = None"

text \<open>
  What a call of \<open>json.loads\<close> comes to: the decoded value, a \<open>JSONDecodeError\<close>, or
  another exception (\<open>RecursionError\<close> on a text nested too deep, \<open>ValueError\<close> on an
  integer with too many digits). The source catches the second and not the third.
\<close>

datatype loaded = Value json | JSONDecodeError | LoadsRaised

text \<open>What a call of a function of the source comes to: a result, or an exception.\<close>

datatype 'a outcome = Returns 'a | Raises

section \<open>The JSON locator\<close>

text \<open>
  \<open>re.sub(r'^```(?:json)?\s*', '', text, flags=re.MULTILINE)\<close>. With \<open>MULTILINE\<close>, \<open>^\<close>
  holds at the start of the text and after every newline. \<open>bol\<close> says whether the current
  position is such a position. A match is the fence, then \<open>json\<close> if it is there, then
  all the whitespace that follows; the search resumes where the match ended.
\<close>

definition fence :: pystr where
  "fence = [BACKTICK, BACKTICK, BACKTICK]"

definition after_open_fence :: "pystr \<Rightarrow> pystr" where
  "after_open_fence s =
     (let r1 = drop 3 s;
          r2 = (if prefix (ascii ''json'') r1 then drop 4 r1 else r1)
      in r2)"

function sub_open :: "bool \<Rightarrow> pystr \<Rightarrow> pystr" where
  "sub_open bol [] = []"
| "sub_open bol (c # cs) =
     (if bol \<and> prefix fence (c # cs) then
        (let r2 = after_open_fence (c # cs);
             ws = takeWhile is_space r2
         in sub_open (ws \<noteq> [] \<and> last ws = NL) (dropWhile is_space r2))
      else c # sub_open (c = NL) cs)"
  by pat_completeness auto
termination
proof (relation "measure (\<lambda>(bol, s). length s)")
  show "wf (measure (\<lambda>(bol, s). length s))" by simp
next
  fix bol :: bool and c :: nat and cs r2 ws
  assume "bol \<and> prefix fence (c # cs)" and r2: "r2 = after_open_fence (c # cs)"
  have aof: "length (after_open_fence s) \<le> length (drop 3 s)" for s
    unfolding after_open_fence_def Let_def by (cases "prefix (ascii ''json'') (drop 3 s)") simp_all
  have "length (dropWhile is_space r2) \<le> length r2"
    by (rule length_dropWhile_le)
  also have "length r2 \<le> length (drop 3 (c # cs))"
    unfolding r2 by (rule aof)
  also have "\<dots> < length (c # cs)" by simp
  finally show "((ws \<noteq> [] \<and> last ws = NL, dropWhile is_space r2), (bol, c # cs))
      \<in> measure (\<lambda>(bol, s). length s)"
    by simp
next
  fix bol :: bool and c :: nat and cs
  show "((c = NL, cs), (bol, c # cs)) \<in> measure (\<lambda>(bol, s). length s)" by simp
qed

text \<open>
  \<open>re.sub(r'```\s*$', '', text, flags=re.MULTILINE)\<close>. With \<open>MULTILINE\<close>, \<open>$\<close> holds at
  the end of the text and before every newline. After a fence, \<open>\s*\<close> takes the whole run
  of whitespace and gives back until \<open>$\<close> holds: at the end of the text if the run
  reaches it, else before the last newline of the run; with neither there is no match at
  this fence. \<open>close_fence_rest\<close> is given the text after the fence and returns the text
  after the match.
\<close>

definition close_fence_rest :: "pystr \<Rightarrow> pystr option" where
  "close_fence_rest r =
     (let ws = takeWhile is_space r; rest = dropWhile is_space r
      in if rest = [] then Some []
         else if NL \<in> set ws then Some (NL # rev (takeWhile (\<lambda>x. x \<noteq> NL) (rev ws)) @ rest)
         else None)"

function sub_close :: "pystr \<Rightarrow> pystr" where
  "sub_close [] = []"
| "sub_close (c # cs) =
     (if prefix fence (c # cs) then
        (case close_fence_rest (drop 3 (c # cs)) of
           Some rest \<Rightarrow> sub_close rest
         | None \<Rightarrow> c # sub_close cs)
      else c # sub_close cs)"
  by pat_completeness auto
termination
proof (relation "measure length")
  show "wf (measure length)" by simp
next
  fix c :: nat and cs rest
  assume "prefix fence (c # cs)" and h: "close_fence_rest (drop 3 (c # cs)) = Some rest"
  let ?r = "drop 3 (c # cs)"
  let ?ws = "takeWhile is_space ?r"
  have "length rest \<le> length ?r"
  proof (cases "dropWhile is_space ?r = []")
    case True
    with h show ?thesis by (simp add: close_fence_rest_def Let_def)
  next
    case False
    with h have nl: "NL \<in> set ?ws"
      and rest: "rest = NL # rev (takeWhile (\<lambda>x. x \<noteq> NL) (rev ?ws)) @ dropWhile is_space ?r"
      by (auto simp: close_fence_rest_def Let_def split: if_splits)
    from nl have "rev ?ws = takeWhile (\<lambda>x. x \<noteq> NL) (rev ?ws) @ dropWhile (\<lambda>x. x \<noteq> NL) (rev ?ws)"
      and "dropWhile (\<lambda>x. x \<noteq> NL) (rev ?ws) \<noteq> []"
      by (simp_all add: dropWhile_eq_Nil_conv)
    then have "length (takeWhile (\<lambda>x. x \<noteq> NL) (rev ?ws)) < length (rev ?ws)"
      by (metis add_diff_cancel_left' length_append length_greater_0_conv zero_less_diff
          length_dropWhile_le takeWhile_dropWhile_id le_neq_implies_less length_takeWhile_le
          append_self_conv)
    then have "Suc (length (takeWhile (\<lambda>x. x \<noteq> NL) (rev ?ws))) \<le> length ?ws" by simp
    moreover have "length ?ws + length (dropWhile is_space ?r) = length ?r"
      by (metis length_append takeWhile_dropWhile_id)
    ultimately show ?thesis unfolding rest by simp
  qed
  also have "\<dots> < length (c # cs)" by simp
  finally show "(rest, c # cs) \<in> measure length" by simp
next
  fix c :: nat and cs
  show "(cs, c # cs) \<in> measure length" by simp
next
  fix c :: nat and cs
  show "(cs, c # cs) \<in> measure length" by simp
qed

text \<open>
  The scan of \<open>_extract_json_object\<close>, lines 38 to 74: \<open>for i in range(start_idx,
  len(text))\<close>. \<open>acc\<close> is \<open>text[start_idx:i]\<close>, the second list is \<open>text[i:]\<close>; the loop
  returns the candidate \<open>text[start_idx:i+1]\<close> when the count is back at zero and the strict
  decoder \<open>loads\<close> accepts it, goes on when the decoder raises \<open>JSONDecodeError\<close>, and
  ends with \<open>None\<close> when the text is used up. Any other exception of the decoder leaves
  the function.
\<close>

fun scan ::
  "(pystr \<Rightarrow> loaded) \<Rightarrow> pystr \<Rightarrow> pystr \<Rightarrow> int \<Rightarrow> bool \<Rightarrow> bool \<Rightarrow> pystr option outcome" where
  "scan loads acc [] brace_count in_string escape_next = Returns None"
| "scan loads acc (c # cs) brace_count in_string escape_next =
     (if escape_next then scan loads (acc @ [c]) cs brace_count in_string False
      else if c = BACKSLASH then scan loads (acc @ [c]) cs brace_count in_string True
      else if c = QUOTE then scan loads (acc @ [c]) cs brace_count (\<not> in_string) False
      else if \<not> in_string then
        (if c = LBRACE then scan loads (acc @ [c]) cs (brace_count + 1) in_string False
         else if c = RBRACE then
           (if brace_count - 1 = 0 then
              (case loads (acc @ [c]) of
                 Value v \<Rightarrow> Returns (Some (acc @ [c]))
               | JSONDecodeError \<Rightarrow> scan loads (acc @ [c]) cs (brace_count - 1) in_string False
               | LoadsRaised \<Rightarrow> Raises)
            else scan loads (acc @ [c]) cs (brace_count - 1) in_string False)
         else scan loads (acc @ [c]) cs brace_count in_string False)
      else scan loads (acc @ [c]) cs brace_count in_string False)"

text \<open>
  \<open>_extract_json_object\<close>. The strict decoder \<open>json.loads\<close> belongs to the Python library;
  it is the parameter \<open>loads\<close>. The two \<open>except\<close> clauses, lines 72 and 83, name
  \<open>json.JSONDecodeError\<close> only.
\<close>

definition strip_fences :: "pystr \<Rightarrow> pystr" where
  "strip_fences text = py_strip (sub_close (sub_open True text))"

definition extract_json_object :: "(pystr \<Rightarrow> loaded) \<Rightarrow> pystr \<Rightarrow> pystr option outcome" where
  "extract_json_object loads text0 =
     (let text = strip_fences text0 in
      if text = [] then Returns None
      else
        let start_idx = py_find LBRACE text in
        if start_idx = - 1 then Returns None
        else
          (case scan loads [] (drop (nat start_idx) text) 0 False False of
             Raises \<Rightarrow> Raises
           | Returns (Some json_str) \<Rightarrow> Returns (Some json_str)
           | Returns None \<Rightarrow>
               (let potential_json = py_strip (drop (nat start_idx) text) in
                case loads potential_json of
                  Value v \<Rightarrow> Returns (Some potential_json)
                | JSONDecodeError \<Rightarrow> Returns None
                | LoadsRaised \<Rightarrow> Raises)))"

section \<open>The tiered parser\<close>

definition key_category :: pystr where
  "key_category = [0x8BDD, 0x9898, 0x5F52, 0x7C7B]"

definition key_tags :: pystr where
  "key_tags = [0x8BDD, 0x9898, 0x6807, 0x7B7E]"

definition key_description :: pystr where
  "key_description = [0x8BDD, 0x9898, 0x63CF, 0x8FF0]"

definition key_memory :: pystr where
  "key_memory = [0x76F8, 0x5173, 0x56DE, 0x5FC6]"

definition required_fields :: "pystr list" where
  "required_fields = [key_category, key_tags, key_description, key_memory]"

text \<open>
  \<open>re.search\<close>: the match at the leftmost position that has one. None of the patterns
  below looks behind the position, so a match at a position is a function of the text
  from there on.
\<close>

fun re_search :: "(pystr \<Rightarrow> 'a option) \<Rightarrow> pystr \<Rightarrow> 'a option" where
  "re_search m [] = m []"
| "re_search m (c # cs) = (case m (c # cs) of Some g \<Rightarrow> Some g | None \<Rightarrow> re_search m cs)"

text \<open>
  The common head of the four patterns, \<open>"key"\s*:\s*\<close> and the opening character
  (\<open>"\<close> or \<open>[\<close>): the result is the text after the opening character.
\<close>

definition match_head :: "pystr \<Rightarrow> nat \<Rightarrow> pystr \<Rightarrow> pystr option" where
  "match_head key opener s =
     (if prefix (QUOTE # key @ [QUOTE]) s then
        (case dropWhile is_space (drop (length key + 2) s) of
           [] \<Rightarrow> None
         | c # r \<Rightarrow>
             if c = COLON then
               (case dropWhile is_space r of
                  [] \<Rightarrow> None
                | c2 # r2 \<Rightarrow> if c2 = opener then Some r2 else None)
             else None)
      else None)"

text \<open>\<open>([^"]*)"\<close>: everything up to the next quote, which has to be there.\<close>

definition match_plain_body :: "pystr \<Rightarrow> pystr option" where
  "match_plain_body r = (if QUOTE \<in> set r then Some (takeWhile (\<lambda>x. x \<noteq> QUOTE) r) else None)"

text \<open>\<open>(.*?)\]\<close> with \<open>DOTALL\<close>: everything up to the next \<open>]\<close>, which has to be there.\<close>

definition match_list_body :: "pystr \<Rightarrow> pystr option" where
  "match_list_body r = (if RBRACK \<in> set r then Some (takeWhile (\<lambda>x. x \<noteq> RBRACK) r) else None)"

text \<open>
  \<open>((?:[^"\\]|\\.)*)"\<close> with \<open>DOTALL\<close>: characters other than quote and backslash, and
  backslash with the character after it, up to a quote. Each item is fixed by its first
  character, so giving items back never finds another match.
\<close>

fun match_escaped_body :: "pystr \<Rightarrow> pystr \<Rightarrow> pystr option" where
  "match_escaped_body acc [] = None"
| "match_escaped_body acc [c] = (if c = QUOTE then Some acc else None)"
| "match_escaped_body acc (c # e # cs) =
     (if c = QUOTE then Some acc
      else if c = BACKSLASH then match_escaped_body (acc @ [c, e]) cs
      else match_escaped_body (acc @ [c]) (e # cs))"

definition match_scalar :: "pystr \<Rightarrow> pystr \<Rightarrow> pystr option" where
  "match_scalar key s =
     (case match_head key QUOTE s of None \<Rightarrow> None | Some r \<Rightarrow> match_plain_body r)"

definition match_tags :: "pystr \<Rightarrow> pystr option" where
  "match_tags s =
     (case match_head key_tags LBRACK s of None \<Rightarrow> None | Some r \<Rightarrow> match_list_body r)"

definition match_memory :: "pystr \<Rightarrow> pystr option" where
  "match_memory s =
     (case match_head key_memory QUOTE s of None \<Rightarrow> None | Some r \<Rightarrow> match_escaped_body [] r)"

text \<open>\<open>re.findall(r'"([^"]*)"', tags_str)\<close>\<close>

function findall_quoted :: "pystr \<Rightarrow> pystr list" where
  "findall_quoted [] = []"
| "findall_quoted (c # cs) =
     (if c = QUOTE \<and> QUOTE \<in> set cs then
        takeWhile (\<lambda>x. x \<noteq> QUOTE) cs # findall_quoted (drop 1 (dropWhile (\<lambda>x. x \<noteq> QUOTE) cs))
      else findall_quoted cs)"
  by pat_completeness auto
termination
proof (relation "measure length")
  show "wf (measure length)" by simp
next
  fix c :: nat and cs
  have "length (drop 1 (dropWhile (\<lambda>x. x \<noteq> QUOTE) cs)) \<le> length cs"
    using length_dropWhile_le [of "\<lambda>x. x \<noteq> QUOTE" cs] by simp
  then show "(drop 1 (dropWhile (\<lambda>x. x \<noteq> QUOTE) cs), c # cs) \<in> measure length" by simp
next
  fix c :: nat and cs
  show "(cs, c # cs) \<in> measure length" by simp
qed

text \<open>\<open>re.sub(r'\s+', ' ', memory)\<close>: every maximal run of whitespace becomes one space.\<close>

function collapse_ws :: "pystr \<Rightarrow> pystr" where
  "collapse_ws [] = []"
| "collapse_ws (c # cs) =
     (if is_space c then SPACE # collapse_ws (dropWhile is_space cs) else c # collapse_ws cs)"
  by pat_completeness auto
termination
proof (relation "measure length")
  show "wf (measure length)" by simp
next
  fix c :: nat and cs
  show "(dropWhile is_space cs, c # cs) \<in> measure length"
    using length_dropWhile_le [of is_space cs] by simp
next
  fix c :: nat and cs
  show "(cs, c # cs) \<in> measure length" by simp
qed

text \<open>
  Tier 3, lines 113 to 145: the dictionary \<open>result\<close> after the four searches, and the
  test on the required fields.
\<close>

definition manual_fields :: "pystr \<Rightarrow> (pystr \<times> json) list" where
  "manual_fields json_str =
     (let result = [];
          result = (case re_search (match_scalar key_category) json_str of
                      Some g \<Rightarrow> dict_set result key_category (JStr g)
                    | None \<Rightarrow> result);
          result = (case re_search match_tags json_str of
                      Some tags_str \<Rightarrow>
                        dict_set result key_tags (JArr (map JStr (findall_quoted tags_str)))
                    | None \<Rightarrow> result);
          result = (case re_search (match_scalar key_description) json_str of
                      Some g \<Rightarrow> dict_set result key_description (JStr g)
                    | None \<Rightarrow> result);
          result = (case re_search match_memory json_str of
                      Some memory \<Rightarrow>
                        dict_set result key_memory (JStr (py_strip (collapse_ws memory)))
                    | None \<Rightarrow> result)
      in result)"

definition manual_extract :: "pystr \<Rightarrow> json option" where
  "manual_extract json_str =
     (let result = manual_fields json_str
      in if list_all (\<lambda>field. field \<in> set (map fst result)) required_fields
         then Some (JObj result) else None)"

text \<open>
  Tier 2, lines 104 and 105. In the source file the quotation marks of these two lines
  are the ASCII ones. Line 104 therefore replaces \<open>"\<close> by \<open>"\<close>, twice. On line 105 the
  three apostrophes open a triple-quoted literal that ends at the next three, so the line
  is one call of \<open>replace\<close> whose first argument is the fifteen characters
  \<^verbatim>\<open>, "'").replace(\<close> and whose second argument is an apostrophe.
\<close>

definition fix_quotes :: "pystr \<Rightarrow> pystr" where
  "fix_quotes json_str =
     (let fixed = py_replace [QUOTE] [QUOTE] (py_replace [QUOTE] [QUOTE] json_str);
          fixed = py_replace
                    [COMMA, SPACE, QUOTE, 39, QUOTE, 41, 46, 114, 101, 112, 108, 97, 99, 101, 40]
                    [39] fixed
      in fixed)"

text \<open>
  \<open>_safe_parse_json\<close>. The result \<open>None\<close> is the Python \<open>None\<close> of the last line; a
  decoded JSON \<open>null\<close>, which Python cannot tell from it, is \<open>Some JNull\<close>. The first two
  tiers catch \<open>json.JSONDecodeError\<close> only, lines 98 and 109; the third catches every
  exception, and its searches raise none.
\<close>

definition safe_parse_json :: "(pystr \<Rightarrow> loaded) \<Rightarrow> pystr \<Rightarrow> json option outcome" where
  "safe_parse_json loads json_str =
     (if json_str = [] then Returns None
      else
        (case loads json_str of
           Value v \<Rightarrow> Returns (Some v)
         | LoadsRaised \<Rightarrow> Raises
         | JSONDecodeError \<Rightarrow>
             (case loads (fix_quotes json_str) of
                Value v \<Rightarrow> Returns (Some v)
              | LoadsRaised \<Rightarrow> Raises
              | JSONDecodeError \<Rightarrow> Returns (manual_extract json_str))))"

section \<open>The retrying call\<close>

text \<open>
  What one \<open>requests.post\<close> and the reading of its response come to: an exception of
  \<open>requests\<close> (connection, timeout, HTTP status), any other exception, a JSON body with no
  \<open>choices\<close>, or the text of the first choice. The service is a function from the number
  of the request to what it answers.
\<close>

datatype reply = RequestError | OtherError | NoChoices | Content pystr

datatype failure = NotFound | ParseFailed | MissingFields | Transport | Unknown | EmptyChoices

datatype step = Return json | Retry failure

text \<open>
  \<open>all(field in parsed_json for field in required_fields)\<close>: it stops at the first field
  that is absent; \<open>None\<close> is the \<open>TypeError\<close> of \<open>in\<close>.
\<close>

fun all_in :: "json \<Rightarrow> pystr list \<Rightarrow> bool option" where
  "all_in v [] = Some True"
| "all_in v (field # fields) =
     (case py_contains v field of
        None \<Rightarrow> None
      | Some False \<Rightarrow> Some False
      | Some True \<Rightarrow> all_in v fields)"

text \<open>
  The body of the \<open>try\<close>, lines 177 to 230, with the two handlers: what one attempt ends
  in. An exception that leaves \<open>_extract_json_object\<close> or \<open>_safe_parse_json\<close> is caught
  by the second handler, line 237. When the fields are not all there, line 219 calls
  \<open>keys()\<close>, which raises on a \<open>str\<close> or a \<open>list\<close>; that is caught by the second
  handler too.
\<close>

definition missing_fields_failure :: "json \<Rightarrow> failure" where
  "missing_fields_failure v = (case v of JObj d \<Rightarrow> MissingFields | _ \<Rightarrow> Unknown)"

definition attempt_step :: "(pystr \<Rightarrow> loaded) \<Rightarrow> reply \<Rightarrow> step" where
  "attempt_step loads r =
     (case r of
        RequestError \<Rightarrow> Retry Transport
      | OtherError \<Rightarrow> Retry Unknown
      | NoChoices \<Rightarrow> Retry EmptyChoices
      | Content content \<Rightarrow>
          (case extract_json_object loads content of
             Raises \<Rightarrow> Retry Unknown
           | Returns None \<Rightarrow> Retry NotFound
           | Returns (Some json_str) \<Rightarrow>
               if json_str = [] then Retry NotFound
               else
                 (case safe_parse_json loads json_str of
                    Raises \<Rightarrow> Retry Unknown
                  | Returns None \<Rightarrow> Retry ParseFailed
                  | Returns (Some parsed_json) \<Rightarrow>
                      if py_truthy parsed_json then
                        (case all_in parsed_json required_fields of
                           None \<Rightarrow> Retry Unknown
                         | Some True \<Rightarrow> Return parsed_json
                         | Some False \<Rightarrow> Retry (missing_fields_failure parsed_json))
                      else Retry ParseFailed)))"

text \<open>
  Every failure sleeps before the next attempt when one remains, except a body with no
  \<open>choices\<close>: the \<open>if\<close> of line 188 has no \<open>else\<close>, and the loop goes on at once.
\<close>

definition sleeps_after :: "failure \<Rightarrow> bool" where
  "sleeps_after f \<longleftrightarrow> f \<noteq> EmptyChoices"

datatype call_event = Post nat | Sleep nat

text \<open>
  \<open>call_llm\<close>: \<open>for attempt in range(self.max_retries)\<close>. The result is the value returned
  and the requests and pauses in the order they happened. \<open>retry_interval\<close> is a number
  of seconds, not negative.
\<close>

definition pause :: "int \<Rightarrow> nat \<Rightarrow> nat \<Rightarrow> failure \<Rightarrow> call_event list" where
  "pause max_retries retry_interval attempt f =
     (if sleeps_after f \<and> int attempt < max_retries - 1 then [Sleep retry_interval] else [])"

function call_loop ::
  "(pystr \<Rightarrow> loaded) \<Rightarrow> (nat \<Rightarrow> reply) \<Rightarrow> int \<Rightarrow> nat \<Rightarrow> nat \<Rightarrow> json option \<times> call_event list" where
  "call_loop loads send max_retries retry_interval attempt =
     (if int attempt < max_retries then
        (case attempt_step loads (send attempt) of
           Return v \<Rightarrow> (Some v, [Post attempt])
         | Retry f \<Rightarrow>
             (let (res, events) = call_loop loads send max_retries retry_interval (Suc attempt)
              in (res, Post attempt # pause max_retries retry_interval attempt f @ events)))
      else (None, []))"
  by pat_completeness auto
termination
  by (relation "measure (\<lambda>(loads, send, max_retries, retry_interval, attempt).
        nat (max_retries - int attempt))") auto

definition call_llm ::
  "(pystr \<Rightarrow> loaded) \<Rightarrow> (nat \<Rightarrow> reply) \<Rightarrow> int \<Rightarrow> nat \<Rightarrow> json option \<times> call_event list" where
  "call_llm loads send max_retries retry_interval =
     call_loop loads send max_retries retry_interval 0"

text \<open>The number of requests among the events of a call.\<close>

definition requests :: "call_event list \<Rightarrow> nat" where
  "requests es = length (filter (\<lambda>e. case e of Post k \<Rightarrow> True | Sleep t \<Rightarrow> False) es)"

text \<open>The four kinds of failure that the specification of the retry budget names.\<close>

definition named_failures :: "failure set" where
  "named_failures = {NotFound, ParseFailed, MissingFields, Transport}"

text \<open>The failure an attempt ended in (of no use for an attempt that returned).\<close>

definition failure_of :: "step \<Rightarrow> failure" where
  "failure_of st = (case st of Retry f \<Rightarrow> f | Return v \<Rightarrow> NotFound)"

text \<open>
  In the words of the specification: the record of a reply that passes the locator, then
  the parser, then the validator; \<open>None\<close> for a reply that has no content or does not
  pass one of the three.
\<close>

definition accepted :: "(pystr \<Rightarrow> loaded) \<Rightarrow> reply \<Rightarrow> json option" where
  "accepted loads rep =
     (case rep of
        Content content \<Rightarrow>
          (case extract_json_object loads content of
             Returns (Some json_str) \<Rightarrow>
               (case safe_parse_json loads json_str of
                  Returns (Some r) \<Rightarrow>
                    if all_in r required_fields = Some True then Some r else None
                | _ \<Rightarrow> None)
           | _ \<Rightarrow> None)
      | _ \<Rightarrow> None)"

section \<open>The checkpointed driver\<close>

text \<open>
  The two files of a run are named after the second the run started in (lines 18 to 20),
  so the durable store holds, for each such timestamp, a progress file and a results
  file. A file is missing, or holds what was last written to it, or is damaged: opened
  for writing and left without a complete JSON text.
\<close>

record result_entry =
  file_name :: pystr
  analysis :: json

datatype 'a stored = Missing | Damaged | Holds 'a

record store =
  progress_files :: "pystr \<Rightarrow> pystr list stored"
  result_files :: "pystr \<Rightarrow> result_entry list stored"

text \<open>
  \<open>load_progress\<close> and \<open>load_existing_results\<close>: \<open>[]\<close> when the file is not there, and
  \<open>[]\<close> from the \<open>except\<close> branch when it cannot be decoded.
\<close>

definition load_progress :: "store \<Rightarrow> pystr \<Rightarrow> pystr list" where
  "load_progress d ts = (case progress_files d ts of Holds p \<Rightarrow> p | Missing \<Rightarrow> [] | Damaged \<Rightarrow> [])"

definition load_existing_results :: "store \<Rightarrow> pystr \<Rightarrow> result_entry list" where
  "load_existing_results d ts =
     (case result_files d ts of Holds r \<Rightarrow> r | Missing \<Rightarrow> [] | Damaged \<Rightarrow> [])"

text \<open>
  \<open>save_progress\<close> and \<open>save_results\<close> each catch every exception of their own write and
  report it. A write goes through, or \<open>open\<close> fails and the file stays as it was, or
  \<open>json.dump\<close> fails after \<open>open\<close> has emptied the file.
\<close>

datatype write_result = Written | OpenFailed | DumpFailed

definition save_progress :: "write_result \<Rightarrow> store \<Rightarrow> pystr \<Rightarrow> pystr list \<Rightarrow> store" where
  "save_progress w d ts p =
     (case w of
        Written \<Rightarrow> d\<lparr>progress_files := (progress_files d)(ts := Holds p)\<rparr>
      | OpenFailed \<Rightarrow> d
      | DumpFailed \<Rightarrow> d\<lparr>progress_files := (progress_files d)(ts := Damaged)\<rparr>)"

definition save_results :: "write_result \<Rightarrow> store \<Rightarrow> pystr \<Rightarrow> result_entry list \<Rightarrow> store" where
  "save_results w d ts r =
     (case w of
        Written \<Rightarrow> d\<lparr>result_files := (result_files d)(ts := Holds r)\<rparr>
      | OpenFailed \<Rightarrow> d
      | DumpFailed \<Rightarrow> d\<lparr>result_files := (result_files d)(ts := Damaged)\<rparr>)"

text \<open>\<open>os.path.basename\<close>: what follows the last \<open>/\<close>.\<close>

definition basename :: "pystr \<Rightarrow> pystr" where
  "basename path = rev (takeWhile (\<lambda>c. c \<noteq> 47) (rev path))"

text \<open>\<open>xs[:n]\<close>\<close>

definition py_slice_to :: "int \<Rightarrow> 'a list \<Rightarrow> 'a list" where
  "py_slice_to n xs = (if 0 \<le> n then take (nat n) xs else take (length xs - nat (- n)) xs)"

text \<open>
  \<open>TEST_MODE\<close> and \<open>TEST_FILE_COUNT\<close> come from \<open>config.py\<close>, which is not part of the
  sources at hand; they are parameters.
\<close>

record config =
  test_mode :: bool
  test_file_count :: int

text \<open>
  What the run meets outside the program: whether the two directories can be made
  (line 14 and 15 raise otherwise), and how the writes go, the first, the second and so on.
\<close>

record env =
  dirs_ok :: bool
  write_result_of :: "nat \<Rightarrow> write_result"

text \<open>
  What the driver gets for one file: \<open>extract_conversation_data\<close> returned \<open>None\<close>; or
  \<open>format_conversation_for_llm\<close> raised (it calls \<open>startswith\<close> on the content of an
  assistant message, which need not be a string), and nothing in \<open>main\<close> catches that; or
  \<open>call_llm\<close> returned this value for the prompt built from the file.
\<close>

datatype file_outcome = NoData | PromptError | Analysis "json option"

datatype driver_event =
    Process pystr
  | AppendResult result_entry
  | AppendProgress pystr
  | SaveProgress "pystr list" write_result
  | SaveResults "result_entry list" write_result
  | Pace

record run_state =
  processed_files :: "pystr list"
  results :: "result_entry list"
  disk :: store
  writes :: nat
  success_count :: nat
  fail_count :: nat
  events :: "driver_event list"
  crashed :: bool

definition emit :: "driver_event \<Rightarrow> run_state \<Rightarrow> run_state" where
  "emit e s = s\<lparr>events := events s @ [e]\<rparr>"

definition truthy_result :: "json option \<Rightarrow> bool" where
  "truthy_result r = (case r of None \<Rightarrow> False | Some v \<Rightarrow> py_truthy v)"

text \<open>Lines 115 and 116, and again 135 and 136.\<close>

definition save_both :: "env \<Rightarrow> pystr \<Rightarrow> run_state \<Rightarrow> run_state" where
  "save_both e ts s =
     (let w1 = write_result_of e (writes s);
          s = emit (SaveProgress (processed_files s) w1)
                (s\<lparr>disk := save_progress w1 (disk s) ts (processed_files s),
                   writes := writes s + 1\<rparr>);
          w2 = write_result_of e (writes s);
          s = emit (SaveResults (results s) w2)
                (s\<lparr>disk := save_results w2 (disk s) ts (results s),
                   writes := writes s + 1\<rparr>)
      in s)"

text \<open>
  Lines 108 and 109 print two fields of the record with \<open>analysis_result.get\<close> and
  \<open>', '.join\<close>. \<open>get\<close> needs a \<open>dict\<close>; \<open>join\<close> needs strings to iterate over: a list of
  strings, a string, or a \<open>dict\<close>, whose keys are strings. Anything else raises, and
  nothing in \<open>main\<close> catches it.
\<close>

fun is_str :: "json \<Rightarrow> bool" where
  "is_str (JStr s) = True"
| "is_str v = False"

fun joinable :: "json \<Rightarrow> bool" where
  "joinable (JArr xs) = list_all is_str xs"
| "joinable (JStr s) = True"
| "joinable (JObj d) = True"
| "joinable v = False"

definition prints_ok :: "json \<Rightarrow> bool" where
  "prints_ok analysis_result =
     (case analysis_result of
        JObj d \<Rightarrow> (case map_of d key_tags of None \<Rightarrow> True | Some tags \<Rightarrow> joinable tags)
      | _ \<Rightarrow> False)"

text \<open>Lines 97 to 117: the branch taken when \<open>analysis_result\<close> is true.\<close>

definition record_success :: "env \<Rightarrow> pystr \<Rightarrow> pystr \<Rightarrow> json \<Rightarrow> run_state \<Rightarrow> run_state" where
  "record_success e ts file_path analysis_result s =
     (let result_entry = \<lparr>file_name = basename file_path, analysis = analysis_result\<rparr>;
          s = emit (AppendResult result_entry) (s\<lparr>results := results s @ [result_entry]\<rparr>);
          s = emit (AppendProgress file_path)
                (s\<lparr>processed_files := processed_files s @ [file_path]\<rparr>)
      in if \<not> prints_ok analysis_result then s\<lparr>crashed := True\<rparr>
         else
           (let s = s\<lparr>success_count := success_count s + 1\<rparr>
            in if length (processed_files s) mod 10 = 0 then save_both e ts s else s))"

text \<open>
  The loop of lines 71 to 132, \<open>for idx, file_path in enumerate(remaining_files, 1)\<close>;
  \<open>n_files\<close> is \<open>len(remaining_files)\<close>. An exception ends the loop and the run.
\<close>

fun process_files ::
  "env \<Rightarrow> (pystr \<Rightarrow> file_outcome) \<Rightarrow> pystr \<Rightarrow> nat \<Rightarrow> nat \<Rightarrow> pystr list \<Rightarrow> run_state \<Rightarrow> run_state" where
  "process_files e analyse ts n_files idx [] s = s"
| "process_files e analyse ts n_files idx (file_path # rest) s =
     (let s = emit (Process file_path) s in
      case analyse file_path of
        NoData \<Rightarrow>
          process_files e analyse ts n_files (Suc idx) rest (s\<lparr>fail_count := fail_count s + 1\<rparr>)
      | PromptError \<Rightarrow> s\<lparr>crashed := True\<rparr>
      | Analysis analysis_result \<Rightarrow>
          (let s = (if truthy_result analysis_result
                    then record_success e ts file_path (the analysis_result) s
                    else s\<lparr>fail_count := fail_count s + 1\<rparr>)
           in if crashed s then s
              else
                (let s = (if idx < n_files then emit Pace s else s)
                 in process_files e analyse ts n_files (Suc idx) rest s)))"

definition work_list :: "config \<Rightarrow> pystr list \<Rightarrow> pystr list \<Rightarrow> pystr list" where
  "work_list cfg processed all_files =
     (let remaining_files = filter (\<lambda>f. f \<notin> set processed) all_files
      in if test_mode cfg then py_slice_to (test_file_count cfg) remaining_files
         else remaining_files)"

text \<open>
  \<open>main\<close>: \<open>ts\<close> is the timestamp read at line 18, \<open>all_files\<close> the result of
  \<open>find_all_json_files\<close>, \<open>d\<close> the store the run finds. The final save is reached when no
  exception ended the loop.
\<close>

definition main ::
  "config \<Rightarrow> env \<Rightarrow> (pystr \<Rightarrow> file_outcome) \<Rightarrow> pystr \<Rightarrow> pystr list \<Rightarrow> store \<Rightarrow> run_state" where
  "main cfg e analyse ts all_files d =
     (if \<not> dirs_ok e then
        \<lparr>processed_files = [], results = [], disk = d, writes = 0,
         success_count = 0, fail_count = 0, events = [], crashed = True\<rparr>
      else
        (let s0 = \<lparr>processed_files = load_progress d ts,
                   results = load_existing_results d ts,
                   disk = d, writes = 0, success_count = 0, fail_count = 0,
                   events = [], crashed = False\<rparr>;
             remaining_files = work_list cfg (processed_files s0) all_files
         in if length remaining_files = 0 then s0
            else
              (let s = process_files e analyse ts (length remaining_files) 1 remaining_files s0
               in if crashed s then s else save_both e ts s)))"

text \<open>
  The log entry at position \<open>i\<close> and the result at position \<open>i\<close> belong to the same file.
\<close>

definition in_step :: "pystr list \<Rightarrow> result_entry list \<Rightarrow> bool" where
  "in_step p r \<longleftrightarrow> map basename p = map file_name r"

text \<open>
  A sequence of events in which every append to the results is followed at once by the
  append of the same file to the log, and every write of the log is followed at once by
  a write of results that are in step with it; no append and no write stands alone.
\<close>

fun paired :: "driver_event list \<Rightarrow> bool" where
  "paired [] = True"
| "paired (AppendResult e # AppendProgress f # es) = (file_name e = basename f \<and> paired es)"
| "paired (SaveProgress p w1 # SaveResults r w2 # es) = (in_step p r \<and> paired es)"
| "paired (Process f # es) = paired es"
| "paired (Pace # es) = paired es"
| "paired (e # es) = False"

text \<open>
  The order that the specification gives for the two appends: the file goes to the log
  first, its result entry to the results after it.
\<close>

fun progress_first :: "driver_event list \<Rightarrow> bool" where
  "progress_first [] = True"
| "progress_first (AppendProgress f # AppendResult e # es) =
     (file_name e = basename f \<and> progress_first es)"
| "progress_first (AppendProgress f # es) = False"
| "progress_first (AppendResult e # es) = False"
| "progress_first (e # es) = progress_first es"

text \<open>
  A state of the driver in which the events so far are paired and the two lists in memory
  are in step.
\<close>

definition consistent :: "run_state \<Rightarrow> bool" where
  "consistent s \<longleftrightarrow> paired (events s) \<and> in_step (processed_files s) (results s)"

text \<open>
  What a file has to yield to be recorded as done with the run going on: a record that is
  true and that lines 108 and 109 can print.
\<close>

definition succeeds :: "(pystr \<Rightarrow> file_outcome) \<Rightarrow> pystr \<Rightarrow> bool" where
  "succeeds analyse f \<longleftrightarrow> (\<exists>v. analyse f = Analysis (Some v) \<and> py_truthy v \<and> prints_ok v)"

text \<open>The files of the work list that the events show as taken up.\<close>

definition processed :: "driver_event list \<Rightarrow> pystr list" where
  "processed es = concat (map (\<lambda>e. case e of Process f \<Rightarrow> [f] | _ \<Rightarrow> []) es)"

text \<open>The result entries that the events show as appended.\<close>

definition appended :: "driver_event list \<Rightarrow> result_entry list" where
  "appended es = concat (map (\<lambda>e. case e of AppendResult r \<Rightarrow> [r] | _ \<Rightarrow> []) es)"

section \<open>A strict decoder for running the model\<close>

text \<open>
  The theorems below hold for every decoder \<open>loads\<close>. To run the model on a concrete reply
  a decoder is needed: \<open>py_loads\<close> decodes the JSON texts made of objects, arrays,
  strings with the one-letter escapes, integers, \<open>true\<close>, \<open>false\<close> and \<open>null\<close>, the way
  \<open>json.loads\<close> decodes them, and rejects every other text with \<open>JSONDecodeError\<close> (floats
  and \<open>\u\<close> escapes are outside this fragment). As the decoder of CPython does, it counts
  the arrays and objects it is inside of and gives up with \<open>RecursionError\<close> when it is
  about to enter one more than the limit, before it reads on. The first argument of the
  parsing functions is fuel: twice the length of the text is enough.
\<close>

datatype 'a parsed = Parsed 'a | Invalid | TooDeep

definition json_ws :: "nat \<Rightarrow> bool" where
  "json_ws c \<longleftrightarrow> c = SPACE \<or> c = 9 \<or> c = NL \<or> c = 13"

definition unescape :: "nat \<Rightarrow> nat option" where
  "unescape e =
     (if e = QUOTE then Some QUOTE else if e = BACKSLASH then Some BACKSLASH
      else if e = 47 then Some 47 else if e = 98 then Some 8 else if e = 102 then Some 12
      else if e = 110 then Some NL else if e = 114 then Some 13 else if e = 116 then Some 9
      else None)"

fun parse_string :: "pystr \<Rightarrow> pystr \<Rightarrow> (pystr \<times> pystr) option" where
  "parse_string acc [] = None"
| "parse_string acc [c] = (if c = QUOTE then Some (acc, []) else None)"
| "parse_string acc (c # e # cs) =
     (if c = QUOTE then Some (acc, e # cs)
      else if c = BACKSLASH then
        (case unescape e of None \<Rightarrow> None | Some x \<Rightarrow> parse_string (acc @ [x]) cs)
      else if c < 32 then None
      else parse_string (acc @ [c]) (e # cs))"

definition is_digit :: "nat \<Rightarrow> bool" where
  "is_digit c \<longleftrightarrow> 48 \<le> c \<and> c \<le> 57"

definition digits_value :: "pystr \<Rightarrow> int" where
  "digits_value ds = foldl (\<lambda>a d. 10 * a + (int d - 48)) 0 ds"

definition parse_nat :: "pystr \<Rightarrow> (int \<times> pystr) option" where
  "parse_nat s =
     (let ds = takeWhile is_digit s
      in if ds = [] \<or> (hd ds = 48 \<and> length ds > 1) then None
         else Some (digits_value ds, dropWhile is_digit s))"

definition parse_atom :: "pystr \<Rightarrow> (json \<times> pystr) option" where
  "parse_atom s =
     (if prefix (ascii ''true'') s then Some (JBool True, drop 4 s)
      else if prefix (ascii ''false'') s then Some (JBool False, drop 5 s)
      else if prefix (ascii ''null'') s then Some (JNull, drop 4 s)
      else if prefix (ascii ''-'') s then
        (case parse_nat (drop 1 s) of None \<Rightarrow> None | Some (n, r) \<Rightarrow> Some (JInt (- n), r))
      else (case parse_nat s of None \<Rightarrow> None | Some (n, r) \<Rightarrow> Some (JInt n, r)))"

fun parse_value :: "nat \<Rightarrow> nat \<Rightarrow> nat \<Rightarrow> pystr \<Rightarrow> (json \<times> pystr) parsed"
  and parse_members ::
    "nat \<Rightarrow> nat \<Rightarrow> nat \<Rightarrow> (pystr \<times> json) list \<Rightarrow> pystr \<Rightarrow> (json \<times> pystr) parsed"
  and parse_elements :: "nat \<Rightarrow> nat \<Rightarrow> nat \<Rightarrow> json list \<Rightarrow> pystr \<Rightarrow> (json \<times> pystr) parsed" where
  "parse_value 0 limit depth s = Invalid"
| "parse_value (Suc n) limit depth s =
     (case dropWhile json_ws s of
        [] \<Rightarrow> Invalid
      | c # r \<Rightarrow>
          if c = LBRACE then
            (if limit \<le> depth then TooDeep
             else
               (case dropWhile json_ws r of
                  [] \<Rightarrow> Invalid
                | c2 # r2 \<Rightarrow>
                    if c2 = RBRACE then Parsed (JObj [], r2)
                    else parse_members n limit (Suc depth) [] r))
          else if c = LBRACK then
            (if limit \<le> depth then TooDeep
             else
               (case dropWhile json_ws r of
                  [] \<Rightarrow> Invalid
                | c2 # r2 \<Rightarrow>
                    if c2 = RBRACK then Parsed (JArr [], r2)
                    else parse_elements n limit (Suc depth) [] r))
          else if c = QUOTE then
            (case parse_string [] r of None \<Rightarrow> Invalid | Some (x, r2) \<Rightarrow> Parsed (JStr x, r2))
          else (case parse_atom (c # r) of None \<Rightarrow> Invalid | Some a \<Rightarrow> Parsed a))"
| "parse_members 0 limit depth d s = Invalid"
| "parse_members (Suc n) limit depth d s =
     (case dropWhile json_ws s of
        [] \<Rightarrow> Invalid
      | c # r \<Rightarrow>
          if c \<noteq> QUOTE then Invalid
          else
            (case parse_string [] r of
               None \<Rightarrow> Invalid
             | Some (k, r1) \<Rightarrow>
                 (case dropWhile json_ws r1 of
                    [] \<Rightarrow> Invalid
                  | c1 # r2 \<Rightarrow>
                      if c1 \<noteq> COLON then Invalid
                      else
                        (case parse_value n limit depth r2 of
                           Invalid \<Rightarrow> Invalid
                         | TooDeep \<Rightarrow> TooDeep
                         | Parsed (v, r3) \<Rightarrow>
                             (case dropWhile json_ws r3 of
                                [] \<Rightarrow> Invalid
                              | c3 # r4 \<Rightarrow>
                                  if c3 = COMMA then parse_members n limit depth (dict_set d k v) r4
                                  else if c3 = RBRACE then Parsed (JObj (dict_set d k v), r4)
                                  else Invalid)))))"
| "parse_elements 0 limit depth xs s = Invalid"
| "parse_elements (Suc n) limit depth xs s =
     (case parse_value n limit depth s of
        Invalid \<Rightarrow> Invalid
      | TooDeep \<Rightarrow> TooDeep
      | Parsed (v, r) \<Rightarrow>
          (case dropWhile json_ws r of
             [] \<Rightarrow> Invalid
           | c # r2 \<Rightarrow>
               if c = COMMA then parse_elements n limit depth (xs @ [v]) r2
               else if c = RBRACK then Parsed (JArr (xs @ [v]), r2)
               else Invalid))"

definition py_loads :: "nat \<Rightarrow> pystr \<Rightarrow> loaded" where
  "py_loads limit s =
     (case parse_value (Suc (Suc (length s + length s))) limit 0 s of
        Invalid \<Rightarrow> JSONDecodeError
      | TooDeep \<Rightarrow> LoadsRaised
      | Parsed (v, r) \<Rightarrow> if dropWhile json_ws r = [] then Value v else JSONDecodeError)"

text \<open>The decoder with the recursion limit that CPython starts with.\<close>

definition mini_loads :: "pystr \<Rightarrow> loaded" where
  "mini_loads = py_loads 1000"

section \<open>Well-formed JSON texts\<close>







section \<open>Fence tokens and lines\<close>





text \<open>Whitespace of a string in normal form: single spaces between other characters.\<close>

definition ws_normalized :: "pystr \<Rightarrow> bool" where
  "ws_normalized m \<longleftrightarrow>
     list_all (\<lambda>c. is_space c \<longrightarrow> c = SPACE) m \<and> \<not> is_substring [SPACE, SPACE] m \<and>
     (m \<noteq> [] \<longrightarrow> hd m \<noteq> SPACE \<and> last m \<noteq> SPACE)"

section \<open>Sample replies\<close>

text \<open>
  A reply with the four fields, as the prompt asks for it; the argument is what stands
  between the quotes of the last field.
\<close>

definition record_text :: "pystr \<Rightarrow> pystr" where
  "record_text memory =
     ascii ''{\"'' @ key_category @ ascii ''\": \"a\", \"'' @ key_tags @ ascii ''\": [\"t\", \"u\"], \"''
       @ key_description @ ascii ''\": \"d\", \"'' @ key_memory @ ascii ''\": \"'' @ memory
       @ ascii ''\"}''"

definition record_value :: "pystr \<Rightarrow> json" where
  "record_value memory =
     JObj [(key_category, JStr (ascii ''a'')),
           (key_tags, JArr [JStr (ascii ''t''), JStr (ascii ''u'')]),
           (key_description, JStr (ascii ''d'')),
           (key_memory, JStr memory)]"

text \<open>
  A service that fails at the transport, then answers with no choices, then answers
  without an object, then answers with a full record.
\<close>

definition sample_send :: "nat \<Rightarrow> reply" where
  "sample_send k =
     (if k = 0 then RequestError
      else if k = 1 then NoChoices
      else if k = 2 then Content (ascii ''no object here'')
      else Content (record_text (ascii ''x'')))"

text \<open>A reply cut off inside its object, after a thousand opening brackets.\<close>

definition deep_text :: pystr where
  "deep_text = ascii ''{\"a\": '' @ replicate 1000 LBRACK"

text \<open>
  A store with no files, a configuration without test mode, a world in which every write
  goes through, one in which the second write fails, a file of the corpus, the
  timestamps of two runs, and two drivers' views of the extraction: one that always gets
  a record, one that never does.
\<close>

definition empty_store :: store where
  "empty_store = \<lparr>progress_files = (\<lambda>ts. Missing), result_files = (\<lambda>ts. Missing)\<rparr>"

definition plain_config :: config where
  "plain_config = \<lparr>test_mode = False, test_file_count = 0\<rparr>"

definition fine_env :: env where
  "fine_env = \<lparr>dirs_ok = True, write_result_of = (\<lambda>k. Written)\<rparr>"

definition second_write_fails :: env where
  "second_write_fails =
     \<lparr>dirs_ok = True, write_result_of = (\<lambda>k. if k = 1 then DumpFailed else Written)\<rparr>"

definition sample_file :: pystr where
  "sample_file = ascii ''data/empathy/a.json''"

definition sample_ts :: pystr where
  "sample_ts = ascii ''20240101_120000''"

definition later_ts :: pystr where
  "later_ts = ascii ''20240101_120500''"

definition sample_record :: json where
  "sample_record = JObj [(key_category, JStr (ascii ''a'')), (key_tags, JArr [JStr (ascii ''t'')])]"

definition always_valid :: "pystr \<Rightarrow> file_outcome" where
  "always_valid f = Analysis (Some sample_record)"

definition always_failed :: "pystr \<Rightarrow> file_outcome" where
  "always_failed f = Analysis None"







text \<open>The remainder of a text from its first \<open>{\<close> on.\<close>

definition from_first_brace :: "pystr \<Rightarrow> pystr" where
  "from_first_brace t = dropWhile (\<lambda>c. c \<noteq> LBRACE) t"

section \<open>Evaluating the model\<close>

text \<open>The definitions that running the model on a concrete text unfolds.\<close>

lemmas str_defs = ascii_def key_category_def key_tags_def key_description_def key_memory_def
lemmas rec_eval = record_text_def record_value_def str_defs
lemmas mini_defs = mini_loads_def py_loads_def json_ws_def parse_atom_def parse_nat_def
  is_digit_def digits_value_def unescape_def
lemmas locate_defs = extract_json_object_def strip_fences_def py_strip_def py_find_def fence_def
  after_open_fence_def close_fence_rest_def is_space_def Let_def
lemmas tier_defs = safe_parse_json_def fix_quotes_def manual_extract_def manual_fields_def
  match_scalar_def match_tags_def match_memory_def match_head_def match_plain_body_def
  match_list_body_def required_fields_def
lemmas call_defs = attempt_step_def missing_fields_failure_def

declare call_loop.simps [simp del]

section \<open>Properties of the locator\<close>

lemma scan_accepted:
  "scan loads acc cs bc ins esc = Returns (Some s) \<Longrightarrow> \<exists>v. loads s = Value v"
  by (induction cs arbitrary: acc bc ins esc) (auto split: if_splits loaded.splits)

lemma scan_nonempty:
  "scan loads acc cs bc ins esc = Returns (Some s) \<Longrightarrow> s \<noteq> []"
  by (induction cs arbitrary: acc bc ins esc) (auto split: if_splits loaded.splits)

lemma extract_accepted:
  "extract_json_object loads text = Returns (Some s) \<Longrightarrow> \<exists>v. loads s = Value v"
  unfolding extract_json_object_def Let_def
  by (auto split: if_splits option.splits outcome.splits loaded.splits dest: scan_accepted)

text \<open>
  C10: every string the locator returns is accepted by the strict decoder, on the
  candidate path of the scan and on the fallback to the whole remainder alike.
\<close>

theorem extract_json_object_strictly_parseable:
  "extract_json_object loads text = Returns (Some s) \<Longrightarrow> \<exists>v. loads s = Value v"
  by (rule extract_accepted)

theorem extract_json_object_strictly_parseable_witness:
  \<open>extract_json_object mini_loads (ascii ''Result: {"a": 1} done'')
     = Returns (Some (ascii ''{"a": 1}''))
   \<and> (\<exists>v. mini_loads (ascii ''{"a": 1}'') = Value v)\<close>
proof -
  have h: \<open>extract_json_object mini_loads (ascii ''Result: {"a": 1} done'')
      = Returns (Some (ascii ''{"a": 1}''))\<close>
    by (simp add: ascii_def mini_defs locate_defs)
  from extract_json_object_strictly_parseable [OF h] h show ?thesis by simp
qed

section \<open>Properties of the tiered parser\<close>

text \<open>
  C9: the tiers are tried in order. A text that the strict decoder accepts comes back
  decoded by it, whatever the later tiers would have made of the text. The decoder does
  not accept the empty text, as \<open>json.loads\<close> does not.
\<close>

theorem safe_parse_json_strict_first:
  "\<forall>w. loads [] \<noteq> Value w \<Longrightarrow> loads s = Value v \<Longrightarrow>
   safe_parse_json loads s = Returns (Some v)"
  by (auto simp: safe_parse_json_def)

theorem safe_parse_json_strict_first_witness:
  "mini_loads [] = JSONDecodeError
   \<and> mini_loads (record_text (ascii ''x  y'')) = Value (record_value (ascii ''x  y''))
   \<and> safe_parse_json mini_loads (record_text (ascii ''x  y''))
       = Returns (Some (record_value (ascii ''x  y'')))
   \<and> manual_extract (record_text (ascii ''x  y'')) = Some (record_value (ascii ''x y''))"
proof -
  have e: "mini_loads [] = JSONDecodeError" by (simp add: mini_defs)
  have s: "mini_loads (record_text (ascii ''x  y'')) = Value (record_value (ascii ''x  y''))"
    by (simp add: rec_eval mini_defs)
  have m: "manual_extract (record_text (ascii ''x  y'')) = Some (record_value (ascii ''x y''))"
    by (simp add: rec_eval tier_defs is_space_def py_strip_def)
  from e have n: "\<forall>w. mini_loads [] \<noteq> Value w" by simp
  from safe_parse_json_strict_first [OF n s] e s m show ?thesis by simp
qed

lemma keys_distinct:
  "key_category \<noteq> key_tags" "key_category \<noteq> key_description" "key_category \<noteq> key_memory"
  "key_tags \<noteq> key_description" "key_tags \<noteq> key_memory" "key_description \<noteq> key_memory"
  by (simp_all add: str_defs)

lemma manual_fields_keys:
  "set (map fst (manual_fields s)) =
     (if re_search (match_scalar key_category) s = None then {} else {key_category}) \<union>
     (if re_search match_tags s = None then {} else {key_tags}) \<union>
     (if re_search (match_scalar key_description) s = None then {} else {key_description}) \<union>
     (if re_search match_memory s = None then {} else {key_memory})"
  using keys_distinct by (auto simp: manual_fields_def split: option.splits)

lemma manual_fields_all:
  assumes "re_search (match_scalar key_category) s = Some c" "re_search match_tags s = Some t"
    "re_search (match_scalar key_description) s = Some d" "re_search match_memory s = Some m"
  shows "manual_fields s = [(key_category, JStr c), (key_tags, JArr (map JStr (findall_quoted t))),
     (key_description, JStr d), (key_memory, JStr (py_strip (collapse_ws m)))]"
  using keys_distinct assms by (simp add: manual_fields_def)

lemma manual_fields_only_matched:
  assumes "k \<in> set (map fst (manual_fields s))"
  shows "(k = key_category \<and> re_search (match_scalar key_category) s \<noteq> None) \<or>
       (k = key_tags \<and> re_search match_tags s \<noteq> None) \<or>
       (k = key_description \<and> re_search (match_scalar key_description) s \<noteq> None) \<or>
       (k = key_memory \<and> re_search match_memory s \<noteq> None)"
  using assms unfolding manual_fields_keys by (auto split: if_splits)

lemma manual_extract_missing:
  assumes "re_search (match_scalar key_category) s = None \<or> re_search match_tags s = None \<or>
      re_search (match_scalar key_description) s = None \<or> re_search match_memory s = None"
  shows "manual_extract s = None"
  using assms unfolding manual_extract_def Let_def manual_fields_keys required_fields_def
  using keys_distinct by auto

lemma manual_extract_shape:
  assumes r: "manual_extract s = Some r"
  shows "\<exists>c t d m. re_search (match_scalar key_category) s = Some c \<and>
           re_search match_tags s = Some t \<and>
           re_search (match_scalar key_description) s = Some d \<and>
           re_search match_memory s = Some m \<and>
           r = JObj [(key_category, JStr c), (key_tags, JArr (map JStr (findall_quoted t))),
                     (key_description, JStr d), (key_memory, JStr (py_strip (collapse_ws m)))]"
proof -
  from r have all: "list_all (\<lambda>field. field \<in> set (map fst (manual_fields s))) required_fields"
    and rr: "r = JObj (manual_fields s)"
    by (auto simp: manual_extract_def Let_def split: if_splits)
  from all obtain c t d m where
    "re_search (match_scalar key_category) s = Some c" "re_search match_tags s = Some t"
    "re_search (match_scalar key_description) s = Some d" "re_search match_memory s = Some m"
    unfolding manual_fields_keys required_fields_def using keys_distinct
    by (auto split: if_splits)
  with rr manual_fields_all show ?thesis by auto
qed

text \<open>
  C5: the dictionary built by the third tier holds a field only when the pattern of that
  field matched; a missing match makes the tier return \<open>None\<close>; a record that is returned
  has exactly the four fields, each with the text its own pattern captured; and the third
  tier is what \<open>_safe_parse_json\<close> returns when both strict attempts failed.
\<close>

theorem manual_extract_all_or_nothing:
  "(\<forall>k. k \<in> set (map fst (manual_fields s)) \<longrightarrow>
       (k = key_category \<and> re_search (match_scalar key_category) s \<noteq> None) \<or>
       (k = key_tags \<and> re_search match_tags s \<noteq> None) \<or>
       (k = key_description \<and> re_search (match_scalar key_description) s \<noteq> None) \<or>
       (k = key_memory \<and> re_search match_memory s \<noteq> None))
   \<and> (re_search (match_scalar key_category) s = None \<or> re_search match_tags s = None \<or>
      re_search (match_scalar key_description) s = None \<or> re_search match_memory s = None
      \<longrightarrow> manual_extract s = None)
   \<and> (\<forall>r. manual_extract s = Some r \<longrightarrow>
        (\<exists>c t d m. re_search (match_scalar key_category) s = Some c \<and>
           re_search match_tags s = Some t \<and>
           re_search (match_scalar key_description) s = Some d \<and>
           re_search match_memory s = Some m \<and>
           r = JObj [(key_category, JStr c), (key_tags, JArr (map JStr (findall_quoted t))),
                     (key_description, JStr d), (key_memory, JStr (py_strip (collapse_ws m)))]))
   \<and> (s \<noteq> [] \<and> loads s = JSONDecodeError \<and> loads (fix_quotes s) = JSONDecodeError
        \<longrightarrow> safe_parse_json loads s = Returns (manual_extract s))"
proof (intro conjI allI impI)
  fix k assume "k \<in> set (map fst (manual_fields s))"
  then show "(k = key_category \<and> re_search (match_scalar key_category) s \<noteq> None) \<or>
       (k = key_tags \<and> re_search match_tags s \<noteq> None) \<or>
       (k = key_description \<and> re_search (match_scalar key_description) s \<noteq> None) \<or>
       (k = key_memory \<and> re_search match_memory s \<noteq> None)"
    by (rule manual_fields_only_matched)
next
  assume "re_search (match_scalar key_category) s = None \<or> re_search match_tags s = None \<or>
      re_search (match_scalar key_description) s = None \<or> re_search match_memory s = None"
  then show "manual_extract s = None" by (rule manual_extract_missing)
next
  fix r assume "manual_extract s = Some r"
  then show "\<exists>c t d m. re_search (match_scalar key_category) s = Some c \<and>
           re_search match_tags s = Some t \<and>
           re_search (match_scalar key_description) s = Some d \<and>
           re_search match_memory s = Some m \<and>
           r = JObj [(key_category, JStr c), (key_tags, JArr (map JStr (findall_quoted t))),
                     (key_description, JStr d), (key_memory, JStr (py_strip (collapse_ws m)))]"
    by (rule manual_extract_shape)
next
  assume "s \<noteq> [] \<and> loads s = JSONDecodeError \<and> loads (fix_quotes s) = JSONDecodeError"
  then show "safe_parse_json loads s = Returns (manual_extract s)"
    by (simp add: safe_parse_json_def)
qed

theorem manual_extract_all_or_nothing_witness:
  "safe_parse_json mini_loads (record_text (ascii ''x'' @ [NL, 9] @ ascii ''y''))
     = Returns (Some (record_value (ascii ''x y'')))
   \<and> re_search match_memory (record_text (ascii ''x'' @ [NL, 9] @ ascii ''y''))
     = Some (ascii ''x'' @ [NL, 9] @ ascii ''y'')
   \<and> re_search match_memory (ascii ''{\"a\": 1'') = None
   \<and> manual_extract (ascii ''{\"a\": 1'') = None"
proof -
  let ?s = "record_text (ascii ''x'' @ [NL, 9] @ ascii ''y'')"
  have ne: "?s \<noteq> []" by (simp add: rec_eval)
  have l1: "mini_loads ?s = JSONDecodeError" by (simp add: rec_eval mini_defs)
  have l2: "mini_loads (fix_quotes ?s) = JSONDecodeError" by (simp add: rec_eval mini_defs fix_quotes_def)
  have m: "manual_extract ?s = Some (record_value (ascii ''x y''))"
    by (simp add: rec_eval tier_defs is_space_def py_strip_def)
  have mm: "re_search match_memory ?s = Some (ascii ''x'' @ [NL, 9] @ ascii ''y'')"
    by (simp add: rec_eval tier_defs is_space_def)
  have n: "re_search match_memory (ascii ''{\"a\": 1'') = None"
    by (simp add: rec_eval tier_defs is_space_def)
  from manual_extract_all_or_nothing [of ?s mini_loads] ne l1 l2 m
  have "safe_parse_json mini_loads ?s = Returns (Some (record_value (ascii ''x y'')))" by simp
  moreover from manual_extract_all_or_nothing [of "ascii ''{\"a\": 1''" mini_loads] n
  have "manual_extract (ascii ''{\"a\": 1'') = None" by blast
  ultimately show ?thesis using mm n by simp
qed

lemma is_substring_sublist: "is_substring x s \<longleftrightarrow> sublist x s"
  by (auto simp: is_substring_def list_ex_iff sublist_altdef' in_set_suffixes)

lemma space_is_space: "is_space SPACE"
  by (simp add: is_space_def)

lemma collapse_ws_only_spaces: "list_all (\<lambda>c. is_space c \<longrightarrow> c = SPACE) (collapse_ws x)"
  by (induction x rule: collapse_ws.induct) auto

lemma collapse_ws_hd: "\<not> is_space c \<Longrightarrow> collapse_ws (c # cs) = c # collapse_ws cs"
  by simp

lemma collapse_ws_no_leading_space:
  "x = [] \<or> \<not> is_space (hd x) \<Longrightarrow> \<not> prefix [SPACE] (collapse_ws x)"
  using space_is_space by (cases x) auto

lemma dropWhile_head: "dropWhile P xs = [] \<or> \<not> P (hd (dropWhile P xs))"
  by (metis hd_dropWhile)

lemma collapse_ws_no_double: "\<not> sublist [SPACE, SPACE] (collapse_ws x)"
proof (induction x rule: collapse_ws.induct)
  case 1
  then show ?case by simp
next
  case (2 c cs)
  show ?case
  proof (cases "is_space c")
    case True
    have "\<not> prefix [SPACE] (collapse_ws (dropWhile is_space cs))"
      by (rule collapse_ws_no_leading_space) (rule dropWhile_head)
    with True 2 show ?thesis by (simp add: sublist_Cons_right)
  next
    case False
    then have "c \<noteq> SPACE" using space_is_space by auto
    with False 2 show ?thesis by (simp add: sublist_Cons_right)
  qed
qed

lemma py_strip_sublist: "sublist (py_strip y) y"
proof -
  let ?z = "dropWhile is_space y"
  have "prefix (py_strip y) ?z"
  proof -
    have "rev ?z = takeWhile is_space (rev ?z) @ dropWhile is_space (rev ?z)" by simp
    then have "?z = rev (dropWhile is_space (rev ?z)) @ rev (takeWhile is_space (rev ?z))"
      by (metis rev_append rev_rev_ident)
    then show ?thesis unfolding py_strip_def by (metis prefixI)
  qed
  moreover have "suffix ?z y" by (rule suffix_dropWhile)
  ultimately show ?thesis
    by (meson prefix_imp_sublist suffix_imp_sublist sublist_order.order_trans)
qed

lemma py_strip_ends:
  assumes "py_strip y \<noteq> []"
  shows "\<not> is_space (hd (py_strip y))" "\<not> is_space (last (py_strip y))"
proof -
  let ?z = "dropWhile is_space y"
  let ?w = "dropWhile is_space (rev ?z)"
  from assms have w: "?w \<noteq> []" by (simp add: py_strip_def)
  then have "\<not> is_space (hd ?w)" by (rule hd_dropWhile)
  with w show "\<not> is_space (last (py_strip y))" by (simp add: py_strip_def last_rev)
  from w have "rev ?z \<noteq> []" by (metis dropWhile.simps(1))
  then have z: "?z \<noteq> []" by simp
  then have nz: "\<not> is_space (hd ?z)" by (rule hd_dropWhile)
  have "rev ?z = takeWhile is_space (rev ?z) @ ?w" by simp
  then have "?z = rev ?w @ rev (takeWhile is_space (rev ?z))"
    by (metis rev_append rev_rev_ident)
  with w have "hd ?z = hd (rev ?w)" by (metis hd_append2 rev_is_Nil_conv)
  with nz show "\<not> is_space (hd (py_strip y))" by (simp add: py_strip_def)
qed

lemma sublist_list_all: "sublist xs ys \<Longrightarrow> list_all P ys \<Longrightarrow> list_all P xs"
  by (auto simp: sublist_def)

lemma normalized_memory: "ws_normalized (py_strip (collapse_ws x))"
proof -
  let ?m = "py_strip (collapse_ws x)"
  have sub: "sublist ?m (collapse_ws x)" by (rule py_strip_sublist)
  have a: "list_all (\<lambda>c. is_space c \<longrightarrow> c = SPACE) ?m"
    using sub collapse_ws_only_spaces by (rule sublist_list_all)
  have b: "\<not> sublist [SPACE, SPACE] ?m"
    using sub collapse_ws_no_double sublist_order.order_trans by blast
  have c: "?m \<noteq> [] \<longrightarrow> hd ?m \<noteq> SPACE \<and> last ?m \<noteq> SPACE"
    using py_strip_ends [of "collapse_ws x"] space_is_space by auto
  from a b c show ?thesis by (simp add: ws_normalized_def is_substring_sublist)
qed


text \<open>
  What the third tier recovers has its memory field in normal form: lines 138 and 139.
\<close>

lemma tier3_memory_normalized:
  assumes "manual_extract s = Some r"
  shows "\<exists>d m. r = JObj d \<and> map_of d key_memory = Some (JStr m) \<and> ws_normalized m"
proof -
  from assms obtain c t d m where
    r: "r = JObj [(key_category, JStr c), (key_tags, JArr (map JStr (findall_quoted t))),
                  (key_description, JStr d), (key_memory, JStr (py_strip (collapse_ws m)))]"
    using manual_extract_shape [of s r] by blast
  show ?thesis
    unfolding r using keys_distinct normalized_memory by auto
qed

section \<open>Records that the call accepts\<close>

lemma drop_py_find: "LBRACE \<in> set t \<Longrightarrow> drop (nat (py_find LBRACE t)) t = from_first_brace t"
  by (simp add: py_find_def from_first_brace_def dropWhile_eq_drop)

lemma from_first_brace_hd: "LBRACE \<in> set t \<Longrightarrow> \<exists>r. from_first_brace t = LBRACE # r"
proof -
  assume "LBRACE \<in> set t"
  then have n: "from_first_brace t \<noteq> []" by (auto simp: from_first_brace_def)
  then have "hd (from_first_brace t) = LBRACE"
    unfolding from_first_brace_def using hd_dropWhile [of "\<lambda>c. c \<noteq> LBRACE" t] by auto
  with n show ?thesis by (cases "from_first_brace t") auto
qed

lemma lbrace_not_space: "\<not> is_space LBRACE"
  by (simp add: is_space_def)

lemma py_strip_prefix: "r = [] \<or> \<not> is_space (hd r) \<Longrightarrow> prefix (py_strip r) r"
proof -
  assume a: "r = [] \<or> \<not> is_space (hd r)"
  then have d: "dropWhile is_space r = r" by (cases r) auto
  have "rev r = takeWhile is_space (rev r) @ dropWhile is_space (rev r)" by simp
  then have "r = rev (dropWhile is_space (rev r)) @ rev (takeWhile is_space (rev r))"
    by (metis rev_append rev_rev_ident)
  then show ?thesis unfolding py_strip_def d by (metis prefixI)
qed

lemma py_strip_keeps_brace: "py_strip (LBRACE # r) \<noteq> []"
proof -
  have "dropWhile is_space (LBRACE # r) = LBRACE # r" by (simp add: lbrace_not_space)
  moreover have "dropWhile is_space (rev (LBRACE # r)) \<noteq> []"
    using lbrace_not_space by (auto simp: dropWhile_eq_Nil_conv)
  ultimately show ?thesis by (simp add: py_strip_def)
qed

lemma extract_nonempty:
  assumes "extract_json_object loads text = Returns (Some s)"
  shows "s \<noteq> []"
proof -
  let ?t = "strip_fences text"
  from assms have b: "LBRACE \<in> set ?t"
    by (auto simp: extract_json_object_def Let_def py_find_def split: if_splits)
  then obtain r where r: "drop (nat (py_find LBRACE ?t)) ?t = LBRACE # r"
    using drop_py_find from_first_brace_hd by metis
  from b have f: "py_find LBRACE ?t \<noteq> - 1" and ne: "?t \<noteq> []" by (auto simp: py_find_def)
  from assms f ne have
    "scan loads [] (LBRACE # r) 0 False False = Returns (Some s) \<or> s = py_strip (LBRACE # r)"
    unfolding extract_json_object_def Let_def r
    by (auto split: outcome.splits option.splits loaded.splits)
  then show ?thesis
  proof
    assume "scan loads [] (LBRACE # r) 0 False False = Returns (Some s)"
    then show ?thesis by (rule scan_nonempty)
  next
    assume "s = py_strip (LBRACE # r)"
    then show ?thesis by (simp add: py_strip_keeps_brace)
  qed
qed

lemma key_category_nonempty: "key_category \<noteq> []"
  by (simp add: key_category_def)

lemma is_substring_nonempty: "is_substring x s \<Longrightarrow> x \<noteq> [] \<Longrightarrow> s \<noteq> []"
  by (auto simp: is_substring_def)

lemma all_in_truthy: "all_in r required_fields = Some True \<Longrightarrow> py_truthy r"
proof (cases r)
  case (JStr s)
  assume "all_in r required_fields = Some True"
  with JStr have "is_substring key_category s"
    by (auto simp: required_fields_def split: if_splits bool.splits)
  with JStr show ?thesis using is_substring_nonempty key_category_nonempty by auto
qed (auto simp: required_fields_def split: if_splits bool.splits)

lemma attempt_Return_iff: "attempt_step loads rep = Return r \<longleftrightarrow> accepted loads rep = Some r"
proof
  assume "attempt_step loads rep = Return r"
  then show "accepted loads rep = Some r"
    by (auto simp: attempt_step_def accepted_def
        split: reply.splits outcome.splits option.splits if_splits bool.splits)
next
  assume "accepted loads rep = Some r"
  then obtain c js where c: "rep = Content c"
    and e: "extract_json_object loads c = Returns (Some js)"
    and p: "safe_parse_json loads js = Returns (Some r)"
    and a: "all_in r required_fields = Some True"
    by (auto simp: accepted_def split: reply.splits outcome.splits option.splits if_splits)
  from e have "js \<noteq> []" by (rule extract_nonempty)
  moreover from a have "py_truthy r" by (rule all_in_truthy)
  ultimately show "attempt_step loads rep = Return r"
    using c e p a by (simp add: attempt_step_def)
qed

lemma attempt_Retry_iff:
  "(\<exists>f. attempt_step loads rep = Retry f) \<longleftrightarrow> accepted loads rep = None"
proof (cases "accepted loads rep")
  case None
  then have "attempt_step loads rep \<noteq> Return r" for r by (simp add: attempt_Return_iff)
  with None show ?thesis by (cases "attempt_step loads rep") auto
next
  case (Some r)
  then have "attempt_step loads rep = Return r" by (simp add: attempt_Return_iff)
  with Some show ?thesis by simp
qed

lemma attempt_no_choices: "attempt_step loads rep = Retry EmptyChoices \<longleftrightarrow> rep = NoChoices"
  by (auto simp: attempt_step_def missing_fields_failure_def
      split: reply.splits outcome.splits option.splits if_splits bool.splits json.splits)

text \<open>
  A record that the call accepts was decoded by the first tier: the parser is given only
  what the locator has had the strict decoder accept.
\<close>

lemma accepted_is_tier1:
  assumes "accepted loads rep = Some r"
  shows "\<exists>c js. rep = Content c \<and> extract_json_object loads c = Returns (Some js)
           \<and> loads js = Value r"
proof -
  from assms obtain c js where c: "rep = Content c"
    and e: "extract_json_object loads c = Returns (Some js)"
    and p: "safe_parse_json loads js = Returns (Some r)"
    by (auto simp: accepted_def split: reply.splits outcome.splits option.splits if_splits)
  from e obtain v where v: "loads js = Value v" using extract_accepted by blast
  from e have "js \<noteq> []" by (rule extract_nonempty)
  with v p have "r = v" by (simp add: safe_parse_json_def)
  with c e v show ?thesis by simp
qed

text \<open>
  C8, at the reply that shows the defect: the strict decoder accepts the reply, the call
  returns its record with the two spaces of the memory field, which is not in normal
  form; the third tier, given the same text, would have collapsed them.
\<close>

theorem strict_record_keeps_whitespace:
  "attempt_step mini_loads (Content (record_text (ascii ''x  y'')))
     = Return (record_value (ascii ''x  y''))
   \<and> fst (call_llm mini_loads (\<lambda>k. Content (record_text (ascii ''x  y''))) 3 2)
     = Some (record_value (ascii ''x  y''))
   \<and> map_of (case record_value (ascii ''x  y'') of JObj d \<Rightarrow> d) key_memory
     = Some (JStr (ascii ''x  y''))
   \<and> \<not> ws_normalized (ascii ''x  y'')
   \<and> manual_extract (record_text (ascii ''x  y'')) = Some (record_value (ascii ''x y''))"
proof -
  have a: "attempt_step mini_loads (Content (record_text (ascii ''x  y'')))
     = Return (record_value (ascii ''x  y''))"
    by (simp add: rec_eval mini_defs locate_defs tier_defs call_defs)
  then have c: "fst (call_llm mini_loads (\<lambda>k. Content (record_text (ascii ''x  y''))) 3 2)
     = Some (record_value (ascii ''x  y''))"
    by (simp add: call_llm_def call_loop.simps [of _ _ _ _ 0])
  have n: "\<not> ws_normalized (ascii ''x  y'')"
    by (simp add: ws_normalized_def is_substring_def ascii_def)
  have m: "map_of (case record_value (ascii ''x  y'') of JObj d \<Rightarrow> d) key_memory
     = Some (JStr (ascii ''x  y''))"
    by (simp add: rec_eval)
  have t: "manual_extract (record_text (ascii ''x  y'')) = Some (record_value (ascii ''x y''))"
    by (simp add: rec_eval tier_defs is_space_def py_strip_def)
  from a c n m t show ?thesis by simp
qed

theorem strict_record_keeps_whitespace_witness:
  "fst (call_llm mini_loads (\<lambda>k. Content (record_text (ascii ''x  y''))) 3 2)
     = Some (record_value (ascii ''x  y''))
   \<and> is_substring [SPACE, SPACE] (ascii ''x  y'')"
  using strict_record_keeps_whitespace by (simp add: is_substring_def ascii_def)

section \<open>Truncated replies\<close>

lemma scan_none:
  "(\<forall>p. prefix p cs \<longrightarrow> loads (acc @ p) = JSONDecodeError) \<Longrightarrow>
   scan loads acc cs bc ins esc = Returns None"
proof (induction cs arbitrary: acc bc ins esc)
  case Nil
  then show ?case by simp
next
  case (Cons c cs)
  have here: "loads (acc @ [c]) = JSONDecodeError"
    using Cons.prems by (simp add: prefix_def)
  have rest: "\<forall>p. prefix p cs \<longrightarrow> loads ((acc @ [c]) @ p) = JSONDecodeError"
    using Cons.prems by (metis Cons_prefix_Cons append.assoc append_Cons append_Nil)
  have "scan loads (acc @ [c]) cs bc' ins' esc' = Returns None" for bc' ins' esc'
    using rest by (rule Cons.IH)
  with here show ?case by auto
qed

text \<open>
  When the strict decoder rejects, with \<open>JSONDecodeError\<close>, every prefix of the text that
  starts at the first \<open>{\<close> (the whole remainder is the longest of them), the locator
  returns \<open>None\<close>, the attempt ends as not found, and the parser is not called.
\<close>

lemma truncated_reply_not_found:
  assumes "\<forall>p. prefix p (from_first_brace (strip_fences text)) \<longrightarrow> loads p = JSONDecodeError"
  shows "extract_json_object loads text = Returns None"
    and "attempt_step loads (Content text) = Retry NotFound"
proof -
  let ?t = "strip_fences text"
  show e: "extract_json_object loads text = Returns None"
  proof (cases "LBRACE \<in> set ?t")
    case False
    then show ?thesis by (simp add: extract_json_object_def py_find_def Let_def)
  next
    case True
    then have d: "drop (nat (py_find LBRACE ?t)) ?t = from_first_brace ?t" by (rule drop_py_find)
    from True have f: "py_find LBRACE ?t \<noteq> - 1" by (simp add: py_find_def)
    have s: "scan loads [] (from_first_brace ?t) 0 False False = Returns None"
      by (rule scan_none) (use assms in simp)
    from True obtain r where "from_first_brace ?t = LBRACE # r"
      using from_first_brace_hd by blast
    then have "prefix (py_strip (from_first_brace ?t)) (from_first_brace ?t)"
      by (intro py_strip_prefix) (simp add: lbrace_not_space)
    with assms have "loads (py_strip (from_first_brace ?t)) = JSONDecodeError" by blast
    with s d f show ?thesis by (simp add: extract_json_object_def Let_def)
  qed
  then show "attempt_step loads (Content text) = Retry NotFound" by (simp add: attempt_step_def)
qed

subsection \<open>A reply nested too deep\<close>

lemma sub_open_no_tick: "BACKTICK \<notin> set t \<Longrightarrow> sub_open b t = t"
  by (induction t arbitrary: b) (auto simp: fence_def)

lemma sub_close_no_tick: "BACKTICK \<notin> set t \<Longrightarrow> sub_close t = t"
  by (induction t) (auto simp: fence_def)

lemma py_strip_id: "t \<noteq> [] \<Longrightarrow> \<not> is_space (hd t) \<Longrightarrow> \<not> is_space (last t) \<Longrightarrow> py_strip t = t"
proof -
  assume t: "t \<noteq> []" and h: "\<not> is_space (hd t)" and l: "\<not> is_space (last t)"
  from t h have d: "dropWhile is_space t = t" by (cases t) auto
  from t l have "dropWhile is_space (rev t) = rev t"
    by (cases "rev t") (auto simp: last_rev [symmetric] hd_rev)
  with d show ?thesis by (simp add: py_strip_def)
qed

lemma scan_no_close: "RBRACE \<notin> set cs \<Longrightarrow> scan loads acc cs bc ins esc = Returns None"
  by (induction cs arbitrary: acc bc ins esc) auto

lemma deep_arrays:
  "limit \<le> depth + k \<Longrightarrow> 2 * k < fuel \<Longrightarrow>
   parse_value fuel limit depth (replicate (Suc k) LBRACK) = TooDeep"
proof (induction k arbitrary: fuel depth)
  case 0
  then obtain f where "fuel = Suc f" by (cases fuel) auto
  with 0 show ?case by (simp add: json_ws_def)
next
  case (Suc k)
  then obtain f where f: "fuel = Suc (Suc f)" "2 * k < f"
    by (cases fuel; cases "fuel - 1") auto
  show ?case
  proof (cases "limit \<le> depth")
    case True
    with f show ?thesis by (simp add: json_ws_def)
  next
    case False
    have "parse_value f limit (Suc depth) (replicate (Suc k) LBRACK) = TooDeep"
      using Suc.prems f by (intro Suc.IH) auto
    with False f show ?thesis by (simp add: json_ws_def)
  qed
qed

lemma parse_value_space:
  "parse_value fuel limit depth (SPACE # s) = parse_value fuel limit depth s"
  by (cases fuel) (simp_all add: json_ws_def)

lemma deep_text_raises: "mini_loads deep_text = LoadsRaised"
proof -
  have r: "replicate 1000 LBRACK = replicate (Suc 999) LBRACK" by simp
  have l: "length deep_text = 1006" by (simp add: deep_text_def ascii_def)
  have d: "parse_value (Suc f) 1000 (Suc 0) (SPACE # replicate 1000 LBRACK) = TooDeep"
    if "2000 \<le> f" for f
    unfolding parse_value_space r using that by (intro deep_arrays) auto
  have p: "parse_value (Suc (Suc (Suc f))) 1000 0 deep_text = TooDeep" if "2000 \<le> f" for f
  proof -
    have "parse_members (Suc (Suc f)) 1000 1 []
            (QUOTE # 97 # QUOTE # COLON # SPACE # replicate 1000 LBRACK) = TooDeep"
      by (simp add: json_ws_def d [OF that] del: replicate_Suc replicate.simps parse_value.simps)
    then show ?thesis
      unfolding deep_text_def ascii_def
      by (simp add: json_ws_def del: replicate_Suc replicate.simps parse_members.simps)
  qed
  have "Suc (Suc (length deep_text + length deep_text)) = Suc (Suc (Suc 2011))"
    unfolding l by simp
  then have "parse_value (Suc (Suc (length deep_text + length deep_text))) 1000 0 deep_text
      = TooDeep"
    using p [of 2011] by simp
  then show ?thesis by (simp add: mini_loads_def py_loads_def)
qed

lemma deep_text_strip: "py_strip deep_text = deep_text"
proof -
  have h: "deep_text \<noteq> []" "hd deep_text = LBRACE" "last deep_text = LBRACK"
    by (simp_all add: deep_text_def ascii_def)
  show ?thesis using h by (intro py_strip_id) (simp_all add: is_space_def)
qed

lemma deep_text_plain: "strip_fences deep_text = deep_text"
proof -
  have b: "BACKTICK \<notin> set deep_text" by (auto simp: deep_text_def ascii_def)
  then show ?thesis
    by (simp add: strip_fences_def sub_open_no_tick sub_close_no_tick deep_text_strip)
qed

text \<open>
  C6, at the reply that shows the defect: \<open>json.loads\<close> gives up on the remainder with an
  exception that line 83 does not catch, so the locator raises instead of returning
  \<open>None\<close>, and the attempt ends in the handler of line 237.
\<close>

theorem deep_truncated_reply_raises:
  "extract_json_object mini_loads deep_text = Raises
   \<and> attempt_step mini_loads (Content deep_text) = Retry Unknown"
proof -
  have c: "RBRACE \<notin> set deep_text" by (auto simp: deep_text_def ascii_def)
  have f: "py_find LBRACE deep_text = 0" by (simp add: py_find_def deep_text_def ascii_def)
  have n: "deep_text \<noteq> []" by (simp add: deep_text_def ascii_def)
  have "extract_json_object mini_loads deep_text = Raises"
    unfolding extract_json_object_def Let_def deep_text_plain
    using n by (simp add: f scan_no_close [OF c] deep_text_strip deep_text_raises)
  then show ?thesis by (simp add: attempt_step_def)
qed

section \<open>The retry budget\<close>

lemma requests_simps [simp]:
  "requests [] = 0" "requests (Post k # es) = Suc (requests es)" "requests (Sleep t # es) = requests es"
  "requests (xs @ ys) = requests xs + requests ys"
  by (simp_all add: requests_def)

lemma requests_pause [simp]: "requests (pause m d j f) = 0"
  by (simp add: pause_def)

lemma call_loop_done: "\<not> int a < m \<Longrightarrow> call_loop loads send m d a = (None, [])"
  by (simp add: call_loop.simps)

lemma call_loop_return:
  "int a < m \<Longrightarrow> attempt_step loads (send a) = Return r \<Longrightarrow>
   call_loop loads send m d a = (Some r, [Post a])"
  by (simp add: call_loop.simps [of _ _ _ _ a])

lemma call_loop_retry:
  "int a < m \<Longrightarrow> attempt_step loads (send a) = Retry f \<Longrightarrow>
   call_loop loads send m d a =
     (fst (call_loop loads send m d (Suc a)),
      Post a # pause m d a f @ snd (call_loop loads send m d (Suc a)))"
  by (simp add: call_loop.simps [of _ _ _ _ a] split: prod.splits)

lemma call_loop_starts:
  "int a < m \<Longrightarrow> \<exists>post. snd (call_loop loads send m d a) = Post a # post"
  by (cases "attempt_step loads (send a)") (simp_all add: call_loop_return call_loop_retry)

lemma call_loop_fail_run:
  assumes "\<forall>j. a \<le> j \<and> j < k \<longrightarrow> attempt_step loads (send j) = Retry (fk j)"
    and "a \<le> k" and "int k \<le> m"
  shows "call_loop loads send m d a =
     (fst (call_loop loads send m d k),
      concat (map (\<lambda>j. Post j # pause m d j (fk j)) [a..<k]) @ snd (call_loop loads send m d k))"
  using assms
proof (induction "k - a" arbitrary: a)
  case 0
  then show ?case by simp
next
  case (Suc n)
  then have ak: "a < k" and am: "int a < m" by auto
  from Suc.prems ak have st: "attempt_step loads (send a) = Retry (fk a)" by simp
  have ih: "call_loop loads send m d (Suc a) =
     (fst (call_loop loads send m d k),
      concat (map (\<lambda>j. Post j # pause m d j (fk j)) [Suc a..<k]) @ snd (call_loop loads send m d k))"
    using Suc.hyps(2) Suc.prems ak by (intro Suc.hyps(1)) auto
  have "call_loop loads send m d a =
     (fst (call_loop loads send m d (Suc a)),
      Post a # pause m d a (fk a) @ snd (call_loop loads send m d (Suc a)))"
    using am st by (rule call_loop_retry)
  then show ?case
    unfolding ih using ak by (simp add: upt_conv_Cons)
qed

lemma requests_run: "requests (concat (map (\<lambda>j. Post j # pause m d j (fk j)) [a..<k])) = k - a"
  by (induction "k - a" arbitrary: a) (simp_all add: upt_conv_Cons)

lemma call_loop_requests: "requests (snd (call_loop loads send m d a)) \<le> nat (m - int a)"
proof (induction "nat (m - int a)" arbitrary: a)
  case 0
  then show ?case by (simp add: call_loop_done)
next
  case (Suc n)
  then have am: "int a < m" by linarith
  show ?case
  proof (cases "attempt_step loads (send a)")
    case (Return r)
    with am Suc.hyps(2) show ?thesis by (simp add: call_loop_return)
  next
    case (Retry f)
    have "requests (snd (call_loop loads send m d (Suc a))) \<le> nat (m - int (Suc a))"
      using Suc.hyps(2) by (intro Suc.hyps(1)) linarith
    with am Retry show ?thesis by (simp add: call_loop_retry)
  qed
qed

text \<open>The pause after a failed attempt, read off the reply.\<close>

lemma pause_reply:
  assumes "accepted loads rep = None"
  shows "pause m d j (failure_of (attempt_step loads rep))
     = (if rep = NoChoices \<or> \<not> int j < m - 1 then [] else [Sleep d])"
proof -
  from assms obtain f where f: "attempt_step loads rep = Retry f"
    using attempt_Retry_iff by blast
  then have "f = EmptyChoices \<longleftrightarrow> rep = NoChoices"
    using attempt_no_choices [of loads rep] by auto
  with f show ?thesis by (simp add: pause_def sleeps_after_def failure_of_def)
qed

lemma failed_step:
  "accepted loads rep = None \<Longrightarrow>
   attempt_step loads rep = Retry (failure_of (attempt_step loads rep))"
  using attempt_Retry_iff [of loads rep] by (auto simp: failure_of_def)

lemma map_cong_upt: "(\<And>j. j < k \<Longrightarrow> f j = g j) \<Longrightarrow> map f [0..<k] = map g [0..<k]"
  by simp

lemma failed_run:
  assumes fails: "\<forall>j<k. accepted loads (send j) = None" and k: "int k \<le> m"
  shows "call_loop loads send m d 0 =
     (fst (call_loop loads send m d k),
      concat (map (\<lambda>j. Post j # (if send j = NoChoices \<or> \<not> int j < m - 1 then [] else [Sleep d]))
                [0..<k]) @ snd (call_loop loads send m d k))"
proof -
  let ?fk = "\<lambda>j. failure_of (attempt_step loads (send j))"
  have "\<forall>j. 0 \<le> j \<and> j < k \<longrightarrow> attempt_step loads (send j) = Retry (?fk j)"
    using fails failed_step by blast
  from call_loop_fail_run [OF this _ k, of d]
  have run: "call_loop loads send m d 0 =
     (fst (call_loop loads send m d k),
      concat (map (\<lambda>j. Post j # pause m d j (?fk j)) [0..<k]) @ snd (call_loop loads send m d k))"
    by simp
  have "map (\<lambda>j. Post j # pause m d j (?fk j)) [0..<k]
      = map (\<lambda>j. Post j # (if send j = NoChoices \<or> \<not> int j < m - 1 then [] else [Sleep d]))
          [0..<k]"
  proof (rule map_cong_upt)
    fix j assume "j < k"
    with fails have "accepted loads (send j) = None" by simp
    then show "Post j # pause m d j (?fk j)
        = Post j # (if send j = NoChoices \<or> \<not> int j < m - 1 then [] else [Sleep d])"
      by (simp only: pause_reply)
  qed
  then show ?thesis unfolding run by (simp only:)
qed

lemma requests_failed_run:
  "requests (concat (map (\<lambda>j. Post j # (if P j then [] else [Sleep d])) [0..<k])) = k"
  by (induction k) simp_all

lemma call_llm_first_valid:
  assumes k: "int k < m"
    and fails: "\<forall>j<k. accepted loads (send j) = None"
    and ok: "accepted loads (send k) = Some r"
  shows "call_llm loads send m d =
     (Some r, concat (map (\<lambda>j. Post j # (if send j = NoChoices then [] else [Sleep d])) [0..<k])
              @ [Post k])"
proof -
  from k have le: "int k \<le> m" by simp
  have "call_loop loads send m d k = (Some r, [Post k])"
    using k ok by (intro call_loop_return) (simp_all add: attempt_Return_iff)
  with failed_run [OF fails le, of d]
  have run: "call_llm loads send m d =
     (Some r, concat (map (\<lambda>j. Post j # (if send j = NoChoices \<or> \<not> int j < m - 1
                then [] else [Sleep d])) [0..<k]) @ [Post k])"
    by (simp add: call_llm_def)
  have "map (\<lambda>j. Post j # (if send j = NoChoices \<or> \<not> int j < m - 1 then [] else [Sleep d])) [0..<k]
      = map (\<lambda>j. Post j # (if send j = NoChoices then [] else [Sleep d])) [0..<k]"
  proof (rule map_cong_upt)
    fix j assume "j < k"
    with k have "int j < m - 1" by linarith
    then show "Post j # (if send j = NoChoices \<or> \<not> int j < m - 1 then [] else [Sleep d])
        = Post j # (if send j = NoChoices then [] else [Sleep d])" by simp
  qed
  then show ?thesis unfolding run by (simp only:)
qed

lemma call_llm_all_fail:
  assumes fails: "\<forall>j. int j < m \<longrightarrow> accepted loads (send j) = None"
  shows "call_llm loads send m d =
     (None, concat (map (\<lambda>j. Post j # (if send j = NoChoices \<or> \<not> int j < m - 1
                then [] else [Sleep d])) [0..<nat m]))"
proof (cases "0 \<le> m")
  case True
  then have le: "int (nat m) \<le> m" by simp
  have f: "\<forall>j<nat m. accepted loads (send j) = None"
  proof (intro allI impI)
    fix j assume "j < nat m"
    then have "int j < m" by linarith
    with fails show "accepted loads (send j) = None" by simp
  qed
  have "call_loop loads send m d (nat m) = (None, [])"
    by (rule call_loop_done) simp
  with failed_run [OF f le, of d] show ?thesis by (simp add: call_llm_def)
next
  case False
  then have "call_loop loads send m d 0 = (None, [])" by (intro call_loop_done) simp
  with False show ?thesis by (simp add: call_llm_def)
qed

lemma failure_then_pause:
  assumes j: "int j < m - 1" and fails: "\<forall>i\<le>j. accepted loads (send i) = None"
  shows "\<exists>pre post. snd (call_llm loads send m d)
           = pre @ Post j # (if send j = NoChoices then [] else [Sleep d]) @ Post (Suc j) # post
         \<and> requests pre = j"
proof -
  let ?ev = "\<lambda>j. Post j # (if send j = NoChoices \<or> \<not> int j < m - 1 then [] else [Sleep d])"
  from j have le: "int (Suc j) \<le> m" and lt: "int (Suc j) < m" by simp_all
  from fails have f: "\<forall>i<Suc j. accepted loads (send i) = None" by (simp add: less_Suc_eq_le)
  obtain post where post: "snd (call_loop loads send m d (Suc j)) = Post (Suc j) # post"
    using call_loop_starts [OF lt] by blast
  have "snd (call_llm loads send m d) = concat (map ?ev [0..<Suc j]) @ Post (Suc j) # post"
    using failed_run [OF f le, of d] post by (simp add: call_llm_def)
  also have "concat (map ?ev [0..<Suc j]) = concat (map ?ev [0..<j]) @ ?ev j" by simp
  finally have "snd (call_llm loads send m d)
      = concat (map ?ev [0..<j])
        @ Post j # (if send j = NoChoices then [] else [Sleep d]) @ Post (Suc j) # post"
    using j by simp
  moreover have "requests (concat (map ?ev [0..<j])) = j" by (rule requests_failed_run)
  ultimately show ?thesis by blast
qed

text \<open>
  C2: \<open>call_llm\<close> makes at most \<open>max_retries\<close> requests. When attempt \<open>k\<close> is the first whose
  reply passes the locator, the parser and the validator, the call returns that record
  and its last event is request \<open>k\<close>; before it, every request is followed by one pause of
  \<open>retry_interval\<close>, except after a body with no \<open>choices\<close>. When no reply within the
  budget passes, the call returns \<open>None\<close> after \<open>max_retries\<close> requests, with the same
  pauses and none after the last request. In every run, a failed attempt that is not the
  last of the budget is followed by its pause (none after a body with no \<open>choices\<close>) and
  then by the next request; a failure of one of the four named kinds has a reply with
  content or a \<open>requests\<close> exception, so its pause is there. With failures on the first
  \<open>n - 1\<close> attempts and a passing reply on the next, a budget of \<open>n\<close> yields the record and a
  budget of \<open>n - 1\<close> yields \<open>None\<close>.
\<close>

theorem call_llm_retry_budget:
  "requests (snd (call_llm loads send m d)) \<le> nat m
   \<and> (\<forall>k r. int k < m \<and> (\<forall>j<k. accepted loads (send j) = None)
          \<and> accepted loads (send k) = Some r
        \<longrightarrow> call_llm loads send m d
            = (Some r,
               concat (map (\<lambda>j. Post j # (if send j = NoChoices then [] else [Sleep d])) [0..<k])
               @ [Post k]))
   \<and> ((\<forall>j. int j < m \<longrightarrow> accepted loads (send j) = None)
        \<longrightarrow> call_llm loads send m d
            = (None,
               concat (map (\<lambda>j. Post j # (if send j = NoChoices \<or> \<not> int j < m - 1
                                           then [] else [Sleep d])) [0..<nat m])))
   \<and> (\<forall>j. int j < m - 1 \<and> (\<forall>i\<le>j. accepted loads (send i) = None)
        \<longrightarrow> (\<exists>pre post. snd (call_llm loads send m d)
               = pre @ Post j # (if send j = NoChoices then [] else [Sleep d])
                   @ Post (Suc j) # post
             \<and> requests pre = j))
   \<and> (\<forall>j f. attempt_step loads (send j) = Retry f \<and> f \<in> named_failures
        \<longrightarrow> accepted loads (send j) = None \<and> send j \<noteq> NoChoices)
   \<and> (\<forall>n r. 0 < n \<and> (\<forall>j<n - 1. accepted loads (send j) = None)
          \<and> accepted loads (send (n - 1)) = Some r
        \<longrightarrow> fst (call_llm loads send (int n) d) = Some r
            \<and> fst (call_llm loads send (int n - 1) d) = None)"
proof (intro conjI allI impI)
  show "requests (snd (call_llm loads send m d)) \<le> nat m"
    using call_loop_requests [of loads send m d 0] by (simp add: call_llm_def)
next
  fix k r
  assume "int k < m \<and> (\<forall>j<k. accepted loads (send j) = None)
          \<and> accepted loads (send k) = Some r"
  then show "call_llm loads send m d
      = (Some r,
         concat (map (\<lambda>j. Post j # (if send j = NoChoices then [] else [Sleep d])) [0..<k])
         @ [Post k])"
    by (intro call_llm_first_valid) auto
next
  assume "\<forall>j. int j < m \<longrightarrow> accepted loads (send j) = None"
  then show "call_llm loads send m d
      = (None,
         concat (map (\<lambda>j. Post j # (if send j = NoChoices \<or> \<not> int j < m - 1
                                     then [] else [Sleep d])) [0..<nat m]))"
    by (rule call_llm_all_fail)
next
  fix j
  assume "int j < m - 1 \<and> (\<forall>i\<le>j. accepted loads (send i) = None)"
  then show "\<exists>pre post. snd (call_llm loads send m d)
               = pre @ Post j # (if send j = NoChoices then [] else [Sleep d])
                   @ Post (Suc j) # post
             \<and> requests pre = j"
    by (intro failure_then_pause) auto
next
  fix j f
  assume a: "attempt_step loads (send j) = Retry f \<and> f \<in> named_failures"
  then show "accepted loads (send j) = None" using attempt_Retry_iff by blast
  from a have "f \<noteq> EmptyChoices" by (auto simp: named_failures_def)
  with a show "send j \<noteq> NoChoices" using attempt_no_choices [of loads "send j"] by auto
next
  fix n r
  assume a: "0 < n \<and> (\<forall>j<n - 1. accepted loads (send j) = None)
          \<and> accepted loads (send (n - 1)) = Some r"
  then have "int (n - 1) < int n" by simp
  from call_llm_first_valid [OF this, of loads send r d] a
  show "fst (call_llm loads send (int n) d) = Some r" by simp
  have "\<forall>j. int j < int n - 1 \<longrightarrow> accepted loads (send j) = None"
  proof (intro allI impI)
    fix j assume "int j < int n - 1"
    then have "j < n - 1" by linarith
    with a show "accepted loads (send j) = None" by simp
  qed
  from call_llm_all_fail [OF this, of d]
  show "fst (call_llm loads send (int n - 1) d) = None" by simp
qed

lemma sample_accepted:
  "accepted mini_loads (sample_send 0) = None"
  "accepted mini_loads (sample_send 1) = None"
  "accepted mini_loads (sample_send 2) = None"
  "accepted mini_loads (sample_send 3) = Some (record_value (ascii ''x''))"
  by (simp_all add: sample_send_def accepted_def required_fields_def
      rec_eval mini_defs locate_defs tier_defs)

theorem call_llm_retry_budget_witness:
  "call_llm mini_loads sample_send 4 2
     = (Some (record_value (ascii ''x'')), [Post 0, Sleep 2, Post 1, Post 2, Sleep 2, Post 3])
   \<and> call_llm mini_loads sample_send 3 2 = (None, [Post 0, Sleep 2, Post 1, Post 2])"
proof -
  have three: "j < 3 \<longleftrightarrow> j = 0 \<or> j = 1 \<or> j = 2" for j :: nat by auto
  have f3: "\<forall>j<3. accepted mini_loads (sample_send j) = None"
    using sample_accepted by (auto simp: three)
  have all3: "\<forall>j. int j < 3 \<longrightarrow> accepted mini_loads (sample_send j) = None"
    using sample_accepted by (auto simp: three)
  note t4 = call_llm_retry_budget [of mini_loads sample_send 4 2]
  note t3 = call_llm_retry_budget [of mini_loads sample_send 3 2]
  from t4 f3 sample_accepted(4)
  have a: "call_llm mini_loads sample_send 4 2
     = (Some (record_value (ascii ''x'')),
        concat (map (\<lambda>j. Post j # (if sample_send j = NoChoices then [] else [Sleep 2])) [0..<3])
        @ [Post 3])"
    by simp
  from t3 all3
  have b: "call_llm mini_loads sample_send 3 2
     = (None,
        concat (map (\<lambda>j. Post j # (if sample_send j = NoChoices \<or> \<not> int j < 3 - 1
                                    then [] else [Sleep 2])) [0..<nat 3]))"
    by simp
  have u: "[0..<3] = [0, 1, 2]" by (simp add: upt_rec)
  show ?thesis unfolding a b by (simp add: u sample_send_def)
qed

section \<open>Fence stripping\<close>











section \<open>Braces inside strings\<close>



























section \<open>The log and the results of the driver\<close>

lemma paired_append: "paired xs \<Longrightarrow> paired ys \<Longrightarrow> paired (xs @ ys)"
  by (induction xs rule: paired.induct) simp_all

lemma emit_fields [simp]:
  "processed_files (emit x s) = processed_files s" "results (emit x s) = results s"
  "disk (emit x s) = disk s" "writes (emit x s) = writes s" "crashed (emit x s) = crashed s"
  "events (emit x s) = events s @ [x]"
  by (simp_all add: emit_def)

lemma save_both_fields:
  "processed_files (save_both e ts s) = processed_files s"
  "results (save_both e ts s) = results s"
  "crashed (save_both e ts s) = crashed s"
  "events (save_both e ts s) =
     events s @ [SaveProgress (processed_files s) (write_result_of e (writes s)),
                 SaveResults (results s) (write_result_of e (Suc (writes s)))]"
  "disk (save_both e ts s) =
     save_results (write_result_of e (Suc (writes s)))
       (save_progress (write_result_of e (writes s)) (disk s) ts (processed_files s))
       ts (results s)"
  by (simp_all add: save_both_def Let_def emit_def)

lemma load_saved:
  "load_progress (save_results Written (save_progress Written d ts p) ts r) ts = p"
  "load_existing_results (save_results Written (save_progress Written d ts p) ts r) ts = r"
  "progress_files (save_results Written (save_progress Written d ts p) ts r) ts = Holds p"
  "result_files (save_results Written (save_progress Written d ts p) ts r) ts = Holds r"
  by (simp_all add: load_progress_def load_existing_results_def save_progress_def
      save_results_def)

text \<open>
  A property of the state that the steps of the loop keep is kept by the loop.
\<close>

lemma record_success_cases:
  assumes P: "P s"
    and app: "\<And>s. P s \<Longrightarrow>
      P (emit (AppendProgress f)
          ((emit (AppendResult \<lparr>file_name = basename f, analysis = v\<rparr>)
              (s\<lparr>results := results s @ [\<lparr>file_name = basename f, analysis = v\<rparr>]\<rparr>))
            \<lparr>processed_files := processed_files s @ [f]\<rparr>))"
    and crash: "\<And>s. P s \<Longrightarrow> P (s\<lparr>crashed := True\<rparr>)"
    and count: "\<And>s n. P s \<Longrightarrow> P (s\<lparr>success_count := n\<rparr>)"
    and save: "\<And>s. P s \<Longrightarrow> P (save_both e ts s)"
  shows "P (record_success e ts f v s)"
proof -
  let ?s1 = "emit (AppendProgress f)
          ((emit (AppendResult \<lparr>file_name = basename f, analysis = v\<rparr>)
              (s\<lparr>results := results s @ [\<lparr>file_name = basename f, analysis = v\<rparr>]\<rparr>))
            \<lparr>processed_files := processed_files s @ [f]\<rparr>)"
  have 1: "P ?s1" using P by (rule app)
  have 2: "P (?s1\<lparr>crashed := True\<rparr>)" using 1 by (rule crash)
  have 3: "P (?s1\<lparr>success_count := success_count ?s1 + 1\<rparr>)" using 1 by (rule count)
  have 4: "P (save_both e ts (?s1\<lparr>success_count := success_count ?s1 + 1\<rparr>))"
    using 3 by (rule save)
  have "record_success e ts f v s =
     (if \<not> prints_ok v then ?s1\<lparr>crashed := True\<rparr>
      else if length (processed_files (?s1\<lparr>success_count := success_count ?s1 + 1\<rparr>)) mod 10 = 0
           then save_both e ts (?s1\<lparr>success_count := success_count ?s1 + 1\<rparr>)
           else ?s1\<lparr>success_count := success_count ?s1 + 1\<rparr>)"
    by (simp add: record_success_def Let_def)
  with 2 3 4 show ?thesis by simp
qed

lemma process_files_cases:
  assumes P: "P s"
    and logged: "\<And>s x. P s \<Longrightarrow> (\<exists>f. x = Process f) \<or> x = Pace \<Longrightarrow> P (emit x s)"
    and fail: "\<And>s n. P s \<Longrightarrow> P (s\<lparr>fail_count := n\<rparr>)"
    and crash: "\<And>s. P s \<Longrightarrow> P (s\<lparr>crashed := True\<rparr>)"
    and success: "\<And>s f v. P s \<Longrightarrow> P (record_success e ts f v s)"
  shows "P (process_files e analyse ts n idx fs s)"
  using P
proof (induction fs arbitrary: s idx)
  case Nil
  then show ?case by simp
next
  case (Cons f fs)
  let ?s0 = "emit (Process f) s"
  have p0: "P ?s0" using Cons.prems by (intro logged) auto
  show ?case
  proof (cases "analyse f")
    case NoData
    have "P (?s0\<lparr>fail_count := fail_count ?s0 + 1\<rparr>)" using p0 by (rule fail)
    then have "P (process_files e analyse ts n (Suc idx) fs (?s0\<lparr>fail_count := fail_count ?s0 + 1\<rparr>))"
      by (rule Cons.IH)
    with NoData show ?thesis by (simp add: Let_def)
  next
    case PromptError
    have "P (?s0\<lparr>crashed := True\<rparr>)" using p0 by (rule crash)
    with PromptError show ?thesis by (simp add: Let_def)
  next
    case (Analysis r)
    let ?s1 = "if truthy_result r then record_success e ts f (the r) ?s0
               else ?s0\<lparr>fail_count := fail_count ?s0 + 1\<rparr>"
    have p1: "P ?s1" using p0 by (simp add: success fail)
    let ?s2 = "if idx < n then emit Pace ?s1 else ?s1"
    have p2: "P ?s2" using p1 by (simp add: logged)
    have "process_files e analyse ts n idx (f # fs) s =
       (if crashed ?s1 then ?s1 else process_files e analyse ts n (Suc idx) fs ?s2)"
      using Analysis by (simp add: Let_def)
    with p1 Cons.IH [OF p2] show ?thesis by simp
  qed
qed

lemma consistent_emit:
  "consistent s \<Longrightarrow> (\<exists>f. x = Process f) \<or> x = Pace \<Longrightarrow> consistent (emit x s)"
  by (auto simp: consistent_def paired_append)

lemma consistent_save_both: "consistent s \<Longrightarrow> consistent (save_both e ts s)"
  by (simp add: consistent_def save_both_fields paired_append)

lemma consistent_record_success: "consistent s \<Longrightarrow> consistent (record_success e ts f v s)"
proof (rule record_success_cases [where P = consistent])
  fix s assume "consistent s"
  then show "consistent (emit (AppendProgress f)
          ((emit (AppendResult \<lparr>file_name = basename f, analysis = v\<rparr>)
              (s\<lparr>results := results s @ [\<lparr>file_name = basename f, analysis = v\<rparr>]\<rparr>))
            \<lparr>processed_files := processed_files s @ [f]\<rparr>))"
    by (simp add: consistent_def emit_def in_step_def paired_append)
qed (simp_all add: consistent_def consistent_save_both [unfolded consistent_def])

lemma consistent_process_files:
  "consistent s \<Longrightarrow> consistent (process_files e analyse ts n idx fs s)"
proof (rule process_files_cases [where P = consistent])
  show "\<And>s x. consistent s \<Longrightarrow> (\<exists>f. x = Process f) \<or> x = Pace \<Longrightarrow> consistent (emit x s)"
    by (rule consistent_emit)
  show "\<And>s f v. consistent s \<Longrightarrow> consistent (record_success e ts f v s)"
    by (rule consistent_record_success)
qed (simp_all add: consistent_def)

lemma consistent_main:
  assumes "in_step (load_progress d ts) (load_existing_results d ts)"
  shows "consistent (main cfg e analyse ts all_files d)"
proof -
  let ?s0 = "\<lparr>processed_files = load_progress d ts, results = load_existing_results d ts,
       disk = d, writes = 0, success_count = 0, fail_count = 0, events = [],
       crashed = False\<rparr>"
  have c0: "consistent ?s0" using assms by (simp add: consistent_def)
  have c1: "consistent (process_files e analyse ts n 1 fs ?s0)" for n fs
    using c0 by (rule consistent_process_files)
  have c2: "consistent (save_both e ts (process_files e analyse ts n 1 fs ?s0))" for n fs
    using c1 by (rule consistent_save_both)
  have c3: "consistent \<lparr>processed_files = [], results = [], disk = d, writes = 0,
         success_count = 0, fail_count = 0, events = [], crashed = True\<rparr>"
    by (simp add: consistent_def in_step_def)
  show ?thesis
    unfolding main_def Let_def using c0 c1 c2 c3 by simp
qed

text \<open>
  When every write goes through, the two files of the run are in step after every step
  of the loop.
\<close>

lemma disk_save_both:
  assumes w: "\<forall>k. write_result_of e k = Written" and c: "consistent s"
  shows "in_step (load_progress (disk (save_both e ts s)) ts)
           (load_existing_results (disk (save_both e ts s)) ts)"
  using c by (simp add: save_both_fields w load_saved consistent_def)

lemma disk_record_success:
  assumes w: "\<forall>k. write_result_of e k = Written"
    and p: "consistent s \<and> in_step (load_progress (disk s) ts) (load_existing_results (disk s) ts)"
  shows "consistent (record_success e ts f v s)
     \<and> in_step (load_progress (disk (record_success e ts f v s)) ts)
         (load_existing_results (disk (record_success e ts f v s)) ts)"
proof (rule record_success_cases [where P = "\<lambda>s. consistent s
     \<and> in_step (load_progress (disk s) ts) (load_existing_results (disk s) ts)"])
  show "consistent s \<and> in_step (load_progress (disk s) ts) (load_existing_results (disk s) ts)"
    by (rule p)
next
  fix s
  assume "consistent s \<and> in_step (load_progress (disk s) ts) (load_existing_results (disk s) ts)"
  then show "consistent (emit (AppendProgress f)
          ((emit (AppendResult \<lparr>file_name = basename f, analysis = v\<rparr>)
              (s\<lparr>results := results s @ [\<lparr>file_name = basename f, analysis = v\<rparr>]\<rparr>))
            \<lparr>processed_files := processed_files s @ [f]\<rparr>))
      \<and> in_step (load_progress (disk (emit (AppendProgress f)
          ((emit (AppendResult \<lparr>file_name = basename f, analysis = v\<rparr>)
              (s\<lparr>results := results s @ [\<lparr>file_name = basename f, analysis = v\<rparr>]\<rparr>))
            \<lparr>processed_files := processed_files s @ [f]\<rparr>))) ts)
         (load_existing_results (disk (emit (AppendProgress f)
          ((emit (AppendResult \<lparr>file_name = basename f, analysis = v\<rparr>)
              (s\<lparr>results := results s @ [\<lparr>file_name = basename f, analysis = v\<rparr>]\<rparr>))
            \<lparr>processed_files := processed_files s @ [f]\<rparr>))) ts)"
    by (simp add: consistent_def emit_def in_step_def paired_append)
next
  fix s
  assume "consistent s \<and> in_step (load_progress (disk s) ts) (load_existing_results (disk s) ts)"
  then show "consistent (save_both e ts s)
      \<and> in_step (load_progress (disk (save_both e ts s)) ts)
          (load_existing_results (disk (save_both e ts s)) ts)"
    using disk_save_both [OF w] consistent_save_both by blast
qed (simp_all add: consistent_def)

lemma disk_process_files:
  assumes w: "\<forall>k. write_result_of e k = Written"
    and p: "consistent s \<and> in_step (load_progress (disk s) ts) (load_existing_results (disk s) ts)"
  shows "in_step (load_progress (disk (process_files e analyse ts n idx fs s)) ts)
         (load_existing_results (disk (process_files e analyse ts n idx fs s)) ts)"
proof -
  have "consistent (process_files e analyse ts n idx fs s)
     \<and> in_step (load_progress (disk (process_files e analyse ts n idx fs s)) ts)
         (load_existing_results (disk (process_files e analyse ts n idx fs s)) ts)"
  proof (rule process_files_cases [where P = "\<lambda>s. consistent s
     \<and> in_step (load_progress (disk s) ts) (load_existing_results (disk s) ts)"])
    show "consistent s \<and> in_step (load_progress (disk s) ts) (load_existing_results (disk s) ts)"
      by (rule p)
  next
    fix s x
    assume "consistent s \<and> in_step (load_progress (disk s) ts) (load_existing_results (disk s) ts)"
      and "(\<exists>f. x = Process f) \<or> x = Pace"
    then show "consistent (emit x s)
        \<and> in_step (load_progress (disk (emit x s)) ts) (load_existing_results (disk (emit x s)) ts)"
      by (simp add: consistent_emit)
  next
    fix s f v
    assume "consistent s \<and> in_step (load_progress (disk s) ts) (load_existing_results (disk s) ts)"
    then show "consistent (record_success e ts f v s)
     \<and> in_step (load_progress (disk (record_success e ts f v s)) ts)
         (load_existing_results (disk (record_success e ts f v s)) ts)"
      by (rule disk_record_success [OF w])
  qed (simp_all add: consistent_def)
  then show ?thesis by simp
qed

lemma disk_main:
  assumes w: "\<forall>k. write_result_of e k = Written"
    and i: "in_step (load_progress d ts) (load_existing_results d ts)"
  shows "in_step (load_progress (disk (main cfg e analyse ts all_files d)) ts)
           (load_existing_results (disk (main cfg e analyse ts all_files d)) ts)"
proof -
  let ?s0 = "\<lparr>processed_files = load_progress d ts, results = load_existing_results d ts,
       disk = d, writes = 0, success_count = 0, fail_count = 0, events = [],
       crashed = False\<rparr>"
  have c0: "consistent ?s0 \<and> in_step (load_progress (disk ?s0) ts)
      (load_existing_results (disk ?s0) ts)"
    using i by (simp add: consistent_def)
  have 1: "in_step (load_progress (disk (process_files e analyse ts n 1 fs ?s0)) ts)
           (load_existing_results (disk (process_files e analyse ts n 1 fs ?s0)) ts)" for n fs
    using w c0 by (rule disk_process_files)
  have "consistent (process_files e analyse ts n 1 fs ?s0)" for n fs
    using c0 by (intro consistent_process_files) simp
  then have 2: "in_step (load_progress (disk (save_both e ts (process_files e analyse ts n 1 fs ?s0))) ts)
      (load_existing_results (disk (save_both e ts (process_files e analyse ts n 1 fs ?s0))) ts)"
    for n fs
    by (rule disk_save_both [OF w])
  show ?thesis
    unfolding main_def Let_def using i 1 2 by simp
qed

lemma main_final_save:
  assumes "\<not> crashed (main cfg e analyse ts all_files d)"
    and "work_list cfg (load_progress d ts) all_files \<noteq> []"
  shows "\<exists>es w1 w2. events (main cfg e analyse ts all_files d) =
           es @ [SaveProgress (processed_files (main cfg e analyse ts all_files d)) w1,
                 SaveResults (results (main cfg e analyse ts all_files d)) w2]"
  using assms by (auto simp: main_def Let_def save_both_fields split: if_splits)

lemma record_success_appends:
  "\<exists>rest. events (record_success e ts f v s) =
      events s @ [AppendResult \<lparr>file_name = basename f, analysis = v\<rparr>, AppendProgress f] @ rest"
  "processed_files (record_success e ts f v s) = processed_files s @ [f]"
  "results (record_success e ts f v s) = results s @ [\<lparr>file_name = basename f, analysis = v\<rparr>]"
  by (simp_all add: record_success_def Let_def save_both_fields)

lemma done_file_appended:
  assumes "analyse f = Analysis (Some v)" "py_truthy v"
  shows "processed_files (process_files e analyse ts n i [f] s) = processed_files s @ [f]"
    and "results (process_files e analyse ts n i [f] s)
          = results s @ [\<lparr>file_name = basename f, analysis = v\<rparr>]"
    and "\<exists>rest. events (process_files e analyse ts n i [f] s) =
          events s @ [Process f, AppendResult \<lparr>file_name = basename f, analysis = v\<rparr>,
                      AppendProgress f] @ rest"
proof -
  let ?s1 = "record_success e ts f v (emit (Process f) s)"
  have p: "process_files e analyse ts n i [f] s
      = (if crashed ?s1 then ?s1 else if i < n then emit Pace ?s1 else ?s1)"
    using assms by (simp add: Let_def truthy_result_def)
  show "processed_files (process_files e analyse ts n i [f] s) = processed_files s @ [f]"
    unfolding p by (simp add: record_success_appends)
  show "results (process_files e analyse ts n i [f] s)
          = results s @ [\<lparr>file_name = basename f, analysis = v\<rparr>]"
    unfolding p by (simp add: record_success_appends)
  obtain rest where "events ?s1 = events (emit (Process f) s)
      @ [AppendResult \<lparr>file_name = basename f, analysis = v\<rparr>, AppendProgress f] @ rest"
    using record_success_appends(1) by blast
  then show "\<exists>rest. events (process_files e analyse ts n i [f] s) =
          events s @ [Process f, AppendResult \<lparr>file_name = basename f, analysis = v\<rparr>,
                      AppendProgress f] @ rest"
    unfolding p by simp
qed

lemma failed_file_untouched:
  assumes "analyse f = NoData \<or> (\<exists>r. analyse f = Analysis r \<and> \<not> truthy_result r)"
  shows "processed_files (process_files e analyse ts n i [f] s) = processed_files s
     \<and> results (process_files e analyse ts n i [f] s) = results s
     \<and> disk (process_files e analyse ts n i [f] s) = disk s"
  using assms by (auto simp: Let_def)

text \<open>
  C4, as the code has it. From a log and results that are in step when loaded, the two
  lists in memory are in step at the end of the run, every append to the results is
  followed at once by the append of the same file to the log, and every write of the log
  is followed at once by a write of results in step with it; when every write goes
  through, the two files are in step at the end. A run that took up files and was not
  ended by an exception ends with the two writes. A true record is appended to the
  results and then its file to the log; a file that yields no data or no record leaves
  the log, the results and the files as they are. After the two appends of a record
  that can be printed, the two writes follow when the length of the log is a multiple of
  ten, and nothing follows otherwise.
\<close>

theorem driver_keeps_log_and_results_in_step:
  "(in_step (load_progress d ts) (load_existing_results d ts)
    \<longrightarrow> paired (events (main cfg e analyse ts all_files d))
      \<and> in_step (processed_files (main cfg e analyse ts all_files d))
          (results (main cfg e analyse ts all_files d)))
   \<and> (in_step (load_progress d ts) (load_existing_results d ts)
      \<and> (\<forall>k. write_result_of e k = Written)
    \<longrightarrow> in_step (load_progress (disk (main cfg e analyse ts all_files d)) ts)
          (load_existing_results (disk (main cfg e analyse ts all_files d)) ts))
   \<and> (\<not> crashed (main cfg e analyse ts all_files d)
      \<and> work_list cfg (load_progress d ts) all_files \<noteq> []
    \<longrightarrow> (\<exists>es w1 w2. events (main cfg e analyse ts all_files d) =
           es @ [SaveProgress (processed_files (main cfg e analyse ts all_files d)) w1,
                 SaveResults (results (main cfg e analyse ts all_files d)) w2]))
   \<and> (analyse f = Analysis (Some v) \<and> py_truthy v
    \<longrightarrow> processed_files (process_files e analyse ts n i [f] s) = processed_files s @ [f]
      \<and> results (process_files e analyse ts n i [f] s)
          = results s @ [\<lparr>file_name = basename f, analysis = v\<rparr>]
      \<and> (\<exists>rest. events (process_files e analyse ts n i [f] s) =
          events s @ [Process f, AppendResult \<lparr>file_name = basename f, analysis = v\<rparr>,
                      AppendProgress f] @ rest))
   \<and> (analyse f = NoData \<or> analyse f = Analysis None
    \<longrightarrow> processed_files (process_files e analyse ts n i [f] s) = processed_files s
      \<and> results (process_files e analyse ts n i [f] s) = results s
      \<and> disk (process_files e analyse ts n i [f] s) = disk s)
   \<and> (prints_ok v
    \<longrightarrow> events (record_success e ts f v s) =
          events s @ [AppendResult \<lparr>file_name = basename f, analysis = v\<rparr>, AppendProgress f]
          @ (if Suc (length (processed_files s)) mod 10 = 0
             then [SaveProgress (processed_files s @ [f]) (write_result_of e (writes s)),
                   SaveResults (results s @ [\<lparr>file_name = basename f, analysis = v\<rparr>])
                     (write_result_of e (Suc (writes s)))]
             else []))"
proof (intro conjI)
  show "prints_ok v
    \<longrightarrow> events (record_success e ts f v s) =
          events s @ [AppendResult \<lparr>file_name = basename f, analysis = v\<rparr>, AppendProgress f]
          @ (if Suc (length (processed_files s)) mod 10 = 0
             then [SaveProgress (processed_files s @ [f]) (write_result_of e (writes s)),
                   SaveResults (results s @ [\<lparr>file_name = basename f, analysis = v\<rparr>])
                     (write_result_of e (Suc (writes s)))]
             else [])"
    by (simp add: record_success_def Let_def save_both_fields)
  show "in_step (load_progress d ts) (load_existing_results d ts)
    \<longrightarrow> paired (events (main cfg e analyse ts all_files d))
      \<and> in_step (processed_files (main cfg e analyse ts all_files d))
          (results (main cfg e analyse ts all_files d))"
    using consistent_main [of d ts cfg e analyse all_files] by (simp add: consistent_def)
  show "in_step (load_progress d ts) (load_existing_results d ts)
      \<and> (\<forall>k. write_result_of e k = Written)
    \<longrightarrow> in_step (load_progress (disk (main cfg e analyse ts all_files d)) ts)
          (load_existing_results (disk (main cfg e analyse ts all_files d)) ts)"
    using disk_main [of e d ts cfg analyse all_files] by simp
  show "\<not> crashed (main cfg e analyse ts all_files d)
      \<and> work_list cfg (load_progress d ts) all_files \<noteq> []
    \<longrightarrow> (\<exists>es w1 w2. events (main cfg e analyse ts all_files d) =
           es @ [SaveProgress (processed_files (main cfg e analyse ts all_files d)) w1,
                 SaveResults (results (main cfg e analyse ts all_files d)) w2])"
    using main_final_save [of cfg e analyse ts all_files d] by simp
  show "analyse f = Analysis (Some v) \<and> py_truthy v
    \<longrightarrow> processed_files (process_files e analyse ts n i [f] s) = processed_files s @ [f]
      \<and> results (process_files e analyse ts n i [f] s)
          = results s @ [\<lparr>file_name = basename f, analysis = v\<rparr>]
      \<and> (\<exists>rest. events (process_files e analyse ts n i [f] s) =
          events s @ [Process f, AppendResult \<lparr>file_name = basename f, analysis = v\<rparr>,
                      AppendProgress f] @ rest)"
    using done_file_appended [of analyse f v e ts n i s] by simp
  show "analyse f = NoData \<or> analyse f = Analysis None
    \<longrightarrow> processed_files (process_files e analyse ts n i [f] s) = processed_files s
      \<and> results (process_files e analyse ts n i [f] s) = results s
      \<and> disk (process_files e analyse ts n i [f] s) = disk s"
    using failed_file_untouched [of analyse f e ts n i s] by (auto simp: truthy_result_def)
qed

lemma sample_run:
  "main plain_config fine_env always_valid sample_ts [sample_file] empty_store
   = \<lparr>processed_files = [sample_file],
      results = [\<lparr>file_name = ascii ''a.json'', analysis = sample_record\<rparr>],
      disk = \<lparr>progress_files = (\<lambda>ts. Missing)(sample_ts := Holds [sample_file]),
              result_files = (\<lambda>ts. Missing)
                (sample_ts := Holds [\<lparr>file_name = ascii ''a.json'', analysis = sample_record\<rparr>])\<rparr>,
      writes = 2, success_count = 1, fail_count = 0,
      events = [Process sample_file,
                AppendResult \<lparr>file_name = ascii ''a.json'', analysis = sample_record\<rparr>,
                AppendProgress sample_file,
                SaveProgress [sample_file] Written,
                SaveResults [\<lparr>file_name = ascii ''a.json'', analysis = sample_record\<rparr>] Written],
      crashed = False\<rparr>"
proof -
  have b: "basename sample_file = ascii ''a.json''"
    by (simp add: basename_def sample_file_def ascii_def)
  have t: "truthy_result (Some sample_record)" "prints_ok sample_record"
    by (simp_all add: truthy_result_def prints_ok_def sample_record_def str_defs)
  show ?thesis
    by (simp add: main_def Let_def plain_config_def fine_env_def always_valid_def
        empty_store_def work_list_def load_progress_def load_existing_results_def
        record_success_def save_both_def emit_def save_progress_def save_results_def b t)
qed

theorem driver_keeps_log_and_results_in_step_witness:
  "paired (events (main plain_config fine_env always_valid sample_ts [sample_file] empty_store))
   \<and> in_step [sample_file] [\<lparr>file_name = ascii ''a.json'', analysis = sample_record\<rparr>]
   \<and> load_progress
       (disk (main plain_config fine_env always_valid sample_ts [sample_file] empty_store))
       sample_ts = [sample_file]"
proof -
  have i: "in_step (load_progress empty_store sample_ts)
      (load_existing_results empty_store sample_ts)"
    by (simp add: in_step_def load_progress_def load_existing_results_def empty_store_def)
  have w: "\<forall>k. write_result_of fine_env k = Written" by (simp add: fine_env_def)
  note t = driver_keeps_log_and_results_in_step [where d = empty_store and ts = sample_ts
      and cfg = plain_config and e = fine_env and analyse = always_valid
      and all_files = "[sample_file]"]
  from t i have 1: "paired (events (main plain_config fine_env always_valid sample_ts
      [sample_file] empty_store))" by blast
  from t i have "in_step (processed_files (main plain_config fine_env always_valid sample_ts
      [sample_file] empty_store)) (results (main plain_config fine_env always_valid sample_ts
      [sample_file] empty_store))" by blast
  then have 2: "in_step [sample_file] [\<lparr>file_name = ascii ''a.json'', analysis = sample_record\<rparr>]"
    by (simp add: sample_run)
  have 3: "load_progress
       (disk (main plain_config fine_env always_valid sample_ts [sample_file] empty_store))
       sample_ts = [sample_file]"
    by (simp add: sample_run load_progress_def)
  from 1 2 3 show ?thesis by simp
qed

text \<open>
  The entry goes to the results before the file goes to the log, and the two files are
  written one after the other, each on its own: when the second write fails after the
  first went through, the log on disk names a file for which the results on disk have
  no entry.
\<close>

theorem results_first_and_separate_writes:
  "events (main plain_config fine_env always_valid sample_ts [sample_file] empty_store)
     = [Process sample_file,
        AppendResult \<lparr>file_name = ascii ''a.json'', analysis = sample_record\<rparr>,
        AppendProgress sample_file,
        SaveProgress [sample_file] Written,
        SaveResults [\<lparr>file_name = ascii ''a.json'', analysis = sample_record\<rparr>] Written]
   \<and> \<not> progress_first
         (events (main plain_config fine_env always_valid sample_ts [sample_file] empty_store))
   \<and> progress_files
        (disk (main plain_config second_write_fails always_valid sample_ts [sample_file]
                 empty_store)) sample_ts = Holds [sample_file]
   \<and> result_files
        (disk (main plain_config second_write_fails always_valid sample_ts [sample_file]
                 empty_store)) sample_ts = Damaged
   \<and> \<not> in_step
         (load_progress
            (disk (main plain_config second_write_fails always_valid sample_ts [sample_file]
                     empty_store)) sample_ts)
         (load_existing_results
            (disk (main plain_config second_write_fails always_valid sample_ts [sample_file]
                     empty_store)) sample_ts)"
proof -
  have b: "basename sample_file = ascii ''a.json''"
    by (simp add: basename_def sample_file_def ascii_def)
  have t: "truthy_result (Some sample_record)" "prints_ok sample_record"
    by (simp_all add: truthy_result_def prints_ok_def sample_record_def str_defs)
  have d: "disk (main plain_config second_write_fails always_valid sample_ts [sample_file]
                 empty_store)
      = \<lparr>progress_files = (\<lambda>ts. Missing)(sample_ts := Holds [sample_file]),
         result_files = (\<lambda>ts. Missing)(sample_ts := Damaged)\<rparr>"
    by (simp add: main_def Let_def plain_config_def second_write_fails_def always_valid_def
        empty_store_def work_list_def load_progress_def load_existing_results_def
        record_success_def save_both_def emit_def save_progress_def save_results_def b t)
  show ?thesis
    unfolding d by (simp add: sample_run load_progress_def load_existing_results_def in_step_def)
qed

section \<open>Resuming a run\<close>

lemma py_slice_to_subset: "set (py_slice_to n xs) \<subseteq> set xs"
  by (auto simp: py_slice_to_def dest: in_set_takeD)

lemma work_list_subset: "set (work_list cfg p all_files) \<subseteq> set all_files - set p"
proof -
  have "set (work_list cfg p all_files) \<subseteq> set (filter (\<lambda>f. f \<notin> set p) all_files)"
    using py_slice_to_subset [of "test_file_count cfg" "filter (\<lambda>f. f \<notin> set p) all_files"]
    by (simp add: work_list_def Let_def)
  then show ?thesis by auto
qed

lemma work_list_uncapped:
  assumes "\<not> test_mode cfg \<or> int (length all_files) \<le> test_file_count cfg"
  shows "work_list cfg p all_files = filter (\<lambda>f. f \<notin> set p) all_files"
proof (cases "test_mode cfg")
  case False
  then show ?thesis by (simp add: work_list_def)
next
  case True
  with assms have le: "int (length all_files) \<le> test_file_count cfg" by simp
  have "length (filter (\<lambda>f. f \<notin> set p) all_files) \<le> length all_files"
    by (rule length_filter_le)
  with le have "length (filter (\<lambda>f. f \<notin> set p) all_files) \<le> nat (test_file_count cfg)"
    and "0 \<le> test_file_count cfg" by linarith+
  with True show ?thesis by (simp add: work_list_def py_slice_to_def)
qed

lemma work_list_done:
  assumes "set all_files \<subseteq> set p"
  shows "work_list cfg p all_files = []"
proof -
  from assms have "filter (\<lambda>f. f \<notin> set p) all_files = []" by (auto simp: filter_empty_conv)
  then show ?thesis by (simp add: work_list_def py_slice_to_def)
qed

lemma main_no_work:
  assumes "work_list cfg (load_progress d ts) all_files = []"
  shows "events (main cfg e analyse ts all_files d) = []"
    and "disk (main cfg e analyse ts all_files d) = d"
    and "dirs_ok e \<Longrightarrow> results (main cfg e analyse ts all_files d) = load_existing_results d ts"
    and "dirs_ok e \<Longrightarrow> processed_files (main cfg e analyse ts all_files d) = load_progress d ts"
    and "dirs_ok e \<Longrightarrow> \<not> crashed (main cfg e analyse ts all_files d)"
  using assms by (simp_all add: main_def Let_def)

lemma record_success_done:
  assumes "prints_ok v"
  shows "processed_files (record_success e ts f v s) = processed_files s @ [f]"
    and "crashed (record_success e ts f v s) = crashed s"
  using assms by (simp_all add: record_success_def Let_def save_both_fields)

lemma process_files_all_done:
  assumes "\<forall>f\<in>set fs. succeeds analyse f" and "\<not> crashed s"
  shows "processed_files (process_files e analyse ts n idx fs s) = processed_files s @ fs
     \<and> \<not> crashed (process_files e analyse ts n idx fs s)"
  using assms
proof (induction fs arbitrary: s idx)
  case Nil
  then show ?case by simp
next
  case (Cons f fs)
  then obtain v where v: "analyse f = Analysis (Some v)" "py_truthy v" "prints_ok v"
    by (auto simp: succeeds_def)
  let ?s1 = "record_success e ts f v (emit (Process f) s)"
  let ?s2 = "if idx < n then emit Pace ?s1 else ?s1"
  have c1: "\<not> crashed ?s1" and p1: "processed_files ?s1 = processed_files s @ [f]"
    using Cons.prems(2) v(3) by (simp_all add: record_success_done)
  then have c2: "\<not> crashed ?s2" and p2: "processed_files ?s2 = processed_files s @ [f]"
    by simp_all
  have step: "process_files e analyse ts n idx (f # fs) s
      = process_files e analyse ts n (Suc idx) fs ?s2"
    using v c1 by (simp add: Let_def truthy_result_def)
  have "\<forall>f\<in>set fs. succeeds analyse f" using Cons.prems(1) by simp
  from Cons.IH [OF this c2, of "Suc idx"] show ?case
    unfolding step p2 by simp
qed

lemma complete_run:
  assumes ok: "dirs_ok e" and w: "\<forall>k. write_result_of e k = Written"
    and all: "\<forall>f\<in>set (work_list cfg (load_progress d ts) all_files). succeeds analyse f"
  shows "\<not> crashed (main cfg e analyse ts all_files d)"
    and "load_progress (disk (main cfg e analyse ts all_files d)) ts
           = load_progress d ts @ work_list cfg (load_progress d ts) all_files"
    and "load_existing_results (disk (main cfg e analyse ts all_files d)) ts
           = results (main cfg e analyse ts all_files d)"
proof -
  let ?wl = "work_list cfg (load_progress d ts) all_files"
  let ?init = "\<lparr>processed_files = load_progress d ts, results = load_existing_results d ts,
       disk = d, writes = 0, success_count = 0, fail_count = 0, events = [],
       crashed = False\<rparr>"
  let ?fin = "process_files e analyse ts (length ?wl) 1 ?wl ?init"
  have fin: "processed_files ?fin = load_progress d ts @ ?wl" "\<not> crashed ?fin"
    using process_files_all_done [where fs = ?wl and analyse = analyse and s = ?init and e = e
        and ts = ts and n = "length ?wl" and idx = 1] all by simp_all
  have m: "main cfg e analyse ts all_files d = (if ?wl = [] then ?init else save_both e ts ?fin)"
    using ok fin(2) by (simp add: main_def Let_def)
  show "\<not> crashed (main cfg e analyse ts all_files d)"
    unfolding m using fin(2) by (simp add: save_both_fields)
  show "load_progress (disk (main cfg e analyse ts all_files d)) ts = load_progress d ts @ ?wl"
    unfolding m using fin(1) by (simp add: save_both_fields w load_saved)
  show "load_existing_results (disk (main cfg e analyse ts all_files d)) ts
           = results (main cfg e analyse ts all_files d)"
    unfolding m by (simp add: save_both_fields w load_saved)
qed

lemma rerun_finds_nothing:
  assumes ok: "dirs_ok e1" and w: "\<forall>k. write_result_of e1 k = Written"
    and all: "\<forall>f\<in>set all_files. f \<in> set (load_progress d ts) \<or> succeeds analyse1 f"
    and cap: "\<not> test_mode cfg \<or> int (length all_files) \<le> test_file_count cfg"
  shows "\<not> crashed (main cfg e1 analyse1 ts all_files d)"
    and "work_list cfg (load_progress (disk (main cfg e1 analyse1 ts all_files d)) ts) all_files = []"
    and "load_existing_results (disk (main cfg e1 analyse1 ts all_files d)) ts
           = results (main cfg e1 analyse1 ts all_files d)"
proof -
  let ?p = "load_progress d ts"
  have wl: "work_list cfg ?p all_files = filter (\<lambda>f. f \<notin> set ?p) all_files"
    using cap by (rule work_list_uncapped)
  have a: "\<forall>f\<in>set (work_list cfg ?p all_files). succeeds analyse1 f"
    unfolding wl using all by auto
  note c = complete_run [OF ok w a]
  show "\<not> crashed (main cfg e1 analyse1 ts all_files d)" by (rule c(1))
  have "set all_files \<subseteq> set (load_progress (disk (main cfg e1 analyse1 ts all_files d)) ts)"
    unfolding c(2) wl by auto
  then show "work_list cfg (load_progress (disk (main cfg e1 analyse1 ts all_files d)) ts)
      all_files = []"
    by (rule work_list_done)
  show "load_existing_results (disk (main cfg e1 analyse1 ts all_files d)) ts
           = results (main cfg e1 analyse1 ts all_files d)" by (rule c(3))
qed

lemma no_events: "processed [] = []" "appended [] = []"
  by (simp_all add: processed_def appended_def)

text \<open>
  C3, as the code has it. The work list holds no file that the loaded log names, and
  when the test cap does not cut it, it holds every file of the corpus that the log does
  not name, in the order of the corpus. A run
  in which the directories can be made, every write goes through, the test cap does not
  cut the work list and every file of the corpus not yet in the log yields a record that
  is true and can be printed, is not ended by an exception; a run after it that reads
  the files this run wrote (it has the same timestamp) and meets the same corpus takes
  up no file, appends no result entry, writes nothing and, when it gets as far as
  loading, holds the results of the first run.
\<close>

theorem resume_skips_logged_files:
  "set (work_list cfg p all_files) \<subseteq> set all_files - set p
   \<and> (\<not> test_mode cfg \<or> int (length all_files) \<le> test_file_count cfg
    \<longrightarrow> work_list cfg p all_files = filter (\<lambda>f. f \<notin> set p) all_files)
   \<and> (dirs_ok e1 \<and> (\<forall>k. write_result_of e1 k = Written)
      \<and> (\<forall>f\<in>set all_files. f \<in> set (load_progress d ts) \<or> succeeds analyse1 f)
      \<and> (\<not> test_mode cfg \<or> int (length all_files) \<le> test_file_count cfg)
    \<longrightarrow> \<not> crashed (main cfg e1 analyse1 ts all_files d)
      \<and> events (main cfg e2 analyse2 ts all_files
                  (disk (main cfg e1 analyse1 ts all_files d))) = []
      \<and> processed (events (main cfg e2 analyse2 ts all_files
                  (disk (main cfg e1 analyse1 ts all_files d)))) = []
      \<and> appended (events (main cfg e2 analyse2 ts all_files
                  (disk (main cfg e1 analyse1 ts all_files d)))) = []
      \<and> disk (main cfg e2 analyse2 ts all_files (disk (main cfg e1 analyse1 ts all_files d)))
          = disk (main cfg e1 analyse1 ts all_files d)
      \<and> (dirs_ok e2
         \<longrightarrow> results (main cfg e2 analyse2 ts all_files
                        (disk (main cfg e1 analyse1 ts all_files d)))
             = results (main cfg e1 analyse1 ts all_files d)))"
proof (intro conjI impI)
  show "set (work_list cfg p all_files) \<subseteq> set all_files - set p" by (rule work_list_subset)
next
  assume "\<not> test_mode cfg \<or> int (length all_files) \<le> test_file_count cfg"
  then show "work_list cfg p all_files = filter (\<lambda>f. f \<notin> set p) all_files"
    by (rule work_list_uncapped)
next
  assume a: "dirs_ok e1 \<and> (\<forall>k. write_result_of e1 k = Written)
      \<and> (\<forall>f\<in>set all_files. f \<in> set (load_progress d ts) \<or> succeeds analyse1 f)
      \<and> (\<not> test_mode cfg \<or> int (length all_files) \<le> test_file_count cfg)"
  let ?d1 = "disk (main cfg e1 analyse1 ts all_files d)"
  from a have r: "\<not> crashed (main cfg e1 analyse1 ts all_files d)"
    "work_list cfg (load_progress ?d1 ts) all_files = []"
    "load_existing_results ?d1 ts = results (main cfg e1 analyse1 ts all_files d)"
    using rerun_finds_nothing [where ?e1.0 = e1 and all_files = all_files and d = d and ts = ts
        and ?analyse1.0 = analyse1 and cfg = cfg] by blast+
  note n = main_no_work [OF r(2), of e2 analyse2]
  show "\<not> crashed (main cfg e1 analyse1 ts all_files d)" by (rule r(1))
  show "events (main cfg e2 analyse2 ts all_files ?d1) = []" by (rule n(1))
  show "processed (events (main cfg e2 analyse2 ts all_files ?d1)) = []"
    unfolding n(1) by (rule no_events)
  show "appended (events (main cfg e2 analyse2 ts all_files ?d1)) = []"
    unfolding n(1) by (rule no_events)
  show "disk (main cfg e2 analyse2 ts all_files ?d1) = ?d1" by (rule n(2))
  show "results (main cfg e2 analyse2 ts all_files ?d1)
      = results (main cfg e1 analyse1 ts all_files d)" if "dirs_ok e2"
    using n(3) [OF that] r(3) by simp
qed

lemma sample_succeeds: "succeeds always_valid f"
  by (simp add: succeeds_def always_valid_def prints_ok_def sample_record_def str_defs)

theorem resume_skips_logged_files_witness:
  "events (main plain_config fine_env always_failed sample_ts [sample_file]
             (disk (main plain_config fine_env always_valid sample_ts [sample_file] empty_store)))
     = []
   \<and> results (main plain_config fine_env always_failed sample_ts [sample_file]
             (disk (main plain_config fine_env always_valid sample_ts [sample_file] empty_store)))
     = [\<lparr>file_name = ascii ''a.json'', analysis = sample_record\<rparr>]
   \<and> set (work_list plain_config [sample_file] [sample_file]) = {}"
proof -
  have h: "dirs_ok fine_env" "\<forall>k. write_result_of fine_env k = Written"
    "\<not> test_mode plain_config"
    by (simp_all add: fine_env_def plain_config_def)
  have s: "\<forall>f\<in>set [sample_file]. f \<in> set (load_progress empty_store sample_ts)
      \<or> succeeds always_valid f"
    by (simp add: sample_succeeds)
  note t = resume_skips_logged_files [where cfg = plain_config and ?e1.0 = fine_env
      and ?e2.0 = fine_env and ?analyse1.0 = always_valid and ?analyse2.0 = always_failed
      and ts = sample_ts and all_files = "[sample_file]" and d = empty_store
      and p = "[sample_file]"]
  from t h s have 1: "events (main plain_config fine_env always_failed sample_ts [sample_file]
             (disk (main plain_config fine_env always_valid sample_ts [sample_file] empty_store)))
     = []" by blast
  from t h s have "results (main plain_config fine_env always_failed sample_ts [sample_file]
             (disk (main plain_config fine_env always_valid sample_ts [sample_file] empty_store)))
     = results (main plain_config fine_env always_valid sample_ts [sample_file] empty_store)"
    by blast
  then have 2: "results (main plain_config fine_env always_failed sample_ts [sample_file]
             (disk (main plain_config fine_env always_valid sample_ts [sample_file] empty_store)))
     = [\<lparr>file_name = ascii ''a.json'', analysis = sample_record\<rparr>]"
    by (simp add: sample_run)
  from t have "set (work_list plain_config [sample_file] [sample_file])
      \<subseteq> set [sample_file] - set [sample_file]" by blast
  then have 3: "set (work_list plain_config [sample_file] [sample_file]) = {}" by simp
  from 1 2 3 show ?thesis by simp
qed

text \<open>
  A file for which the first run got no record is not in the log, and the next run
  takes it up again; and a run that starts in another second reads other files, finds no
  log, and takes up a file that the run before it has recorded.
\<close>

theorem failed_file_taken_up_again:
  "\<not> crashed (main plain_config fine_env always_failed sample_ts [sample_file] empty_store)
   \<and> processed (events (main plain_config fine_env always_failed sample_ts [sample_file]
        (disk (main plain_config fine_env always_failed sample_ts [sample_file] empty_store))))
     = [sample_file]
   \<and> appended (events (main plain_config fine_env always_valid sample_ts [sample_file]
        (disk (main plain_config fine_env always_failed sample_ts [sample_file] empty_store))))
     = [\<lparr>file_name = ascii ''a.json'', analysis = sample_record\<rparr>]
   \<and> processed (events (main plain_config fine_env always_valid later_ts [sample_file]
        (disk (main plain_config fine_env always_valid sample_ts [sample_file] empty_store))))
     = [sample_file]"
proof -
  have b: "basename sample_file = ascii ''a.json''"
    by (simp add: basename_def sample_file_def ascii_def)
  have t: "truthy_result (Some sample_record)" "prints_ok sample_record"
    "\<not> truthy_result None"
    by (simp_all add: truthy_result_def prints_ok_def sample_record_def str_defs)
  have ts: "later_ts \<noteq> sample_ts" by (simp add: later_ts_def sample_ts_def ascii_def)
  note defs = main_def Let_def plain_config_def fine_env_def always_valid_def
    always_failed_def empty_store_def work_list_def load_progress_def
    load_existing_results_def record_success_def save_both_def emit_def save_progress_def
    save_results_def processed_def appended_def
  have f: "main plain_config fine_env always_failed sample_ts [sample_file] empty_store
      = \<lparr>processed_files = [], results = [],
         disk = \<lparr>progress_files = (\<lambda>ts. Missing)(sample_ts := Holds []),
                 result_files = (\<lambda>ts. Missing)(sample_ts := Holds [])\<rparr>,
         writes = 2, success_count = 0, fail_count = 1,
         events = [Process sample_file, SaveProgress [] Written, SaveResults [] Written],
         crashed = False\<rparr>"
    by (simp add: defs t)
  have 1: "\<not> crashed (main plain_config fine_env always_failed sample_ts [sample_file]
      empty_store)" unfolding f by simp
  have 2: "processed (events (main plain_config fine_env always_failed sample_ts [sample_file]
        (disk (main plain_config fine_env always_failed sample_ts [sample_file] empty_store))))
     = [sample_file]"
    unfolding f by (simp add: defs t)
  have 3: "appended (events (main plain_config fine_env always_valid sample_ts [sample_file]
        (disk (main plain_config fine_env always_failed sample_ts [sample_file] empty_store))))
     = [\<lparr>file_name = ascii ''a.json'', analysis = sample_record\<rparr>]"
    unfolding f by (simp add: defs t b)
  have 4: "processed (events (main plain_config fine_env always_valid later_ts [sample_file]
        (disk (main plain_config fine_env always_valid sample_ts [sample_file] empty_store))))
     = [sample_file]"
    unfolding sample_run by (simp add: defs t b ts)
  from 1 2 3 4 show ?thesis by simp
qed

end
